theory Spec2Isabelle
  imports Complex_Main "HOL-Library.Product_Lexorder"
begin

section \<open>Sentences (csp\_agent.py, class Sentence)\<close>

text \<open>
  A cell is a pair (row, column) of Python integers. A Sentence holds a set of cells and
  an integer count. Python mutates a Sentence in place; the model returns the updated
  value. Two Sentences are equal (\<open>__eq__\<close>) when cells and count are equal, which is
  equality of records.
\<close>

type_synonym cell = "int \<times> int"

record sentence =
  cells :: "cell set"
  count :: int

definition known_mines :: "sentence \<Rightarrow> cell set" where
  "known_mines s =
     (if int (card (cells s)) = count s \<and> count s > 0 then cells s else {})"

definition known_safes :: "sentence \<Rightarrow> cell set" where
  "known_safes s = (if count s = 0 then cells s else {})"

definition sentence_mark_mine :: "sentence \<Rightarrow> cell \<Rightarrow> sentence" where
  "sentence_mark_mine s c =
     (if c \<in> cells s then s\<lparr>cells := cells s - {c}, count := count s - 1\<rparr> else s)"

definition sentence_mark_safe :: "sentence \<Rightarrow> cell \<Rightarrow> sentence" where
  "sentence_mark_safe s c =
     (if c \<in> cells s then s\<lparr>cells := cells s - {c}\<rparr> else s)"

section \<open>The knowledge base (csp\_agent.py, class CSPAgent)\<close>

text \<open>
  The agent's fields: the grid size taken from the environment, the moves made, the known
  mines, the known safe cells and the list of Sentences.
\<close>

record agent =
  rows :: int
  cols :: int
  moves_made :: "cell set"
  mines :: "cell set"
  safes :: "cell set"
  knowledge :: "sentence list"

definition init_agent :: "int \<Rightarrow> int \<Rightarrow> agent" where
  "init_agent h w =
     \<lparr>rows = h, cols = w, moves_made = {}, mines = {}, safes = {}, knowledge = []\<rparr>"

definition mark_mine :: "agent \<Rightarrow> cell \<Rightarrow> agent" where
  "mark_mine a c =
     (if c \<in> mines a then a
      else a\<lparr>mines := insert c (mines a),
             knowledge := map (\<lambda>s. sentence_mark_mine s c) (knowledge a)\<rparr>)"

definition mark_safe :: "agent \<Rightarrow> cell \<Rightarrow> agent" where
  "mark_safe a c =
     (if c \<in> safes a then a
      else a\<lparr>safes := insert c (safes a),
             knowledge := map (\<lambda>s. sentence_mark_safe s c) (knowledge a)\<rparr>)"

text \<open>
  \<open>add_knowledge\<close>, steps 1 to 3: mark the revealed cell safe, record the move, walk the
  3x3 window around the cell (rows outer, columns inner), count the in-bounds neighbours
  that are known mines and collect those that are neither known mines nor known safe;
  a Sentence is appended only when the collected list is not empty.
\<close>

definition window :: "agent \<Rightarrow> cell \<Rightarrow> cell list" where
  "window a cell =
     concat (map (\<lambda>r. concat (map (\<lambda>c.
         if (r, c) = cell then []
         else if 0 \<le> r \<and> r < rows a \<and> 0 \<le> c \<and> c < cols a then [(r, c)] else [])
       [snd cell - 1 .. snd cell + 1]))
       [fst cell - 1 .. fst cell + 1])"

definition mines_found :: "agent \<Rightarrow> cell \<Rightarrow> int" where
  "mines_found a cell = int (length (filter (\<lambda>p. p \<in> mines a) (window a cell)))"

definition hidden_neighbours :: "agent \<Rightarrow> cell \<Rightarrow> cell list" where
  "hidden_neighbours a cell =
     filter (\<lambda>p. p \<notin> mines a \<and> p \<notin> safes a) (window a cell)"

definition add_sentence :: "agent \<Rightarrow> cell \<Rightarrow> int \<Rightarrow> agent" where
  "add_sentence a cell cnt =
     (let a1 = mark_safe a cell;
          a2 = a1\<lparr>moves_made := insert cell (moves_made a1)\<rparr>;
          cs = hidden_neighbours a2 cell
      in if cs \<noteq> []
         then a2\<lparr>knowledge := knowledge a2 @
                  [\<lparr>cells = set cs, count = cnt - mines_found a2 cell\<rparr>]\<rparr>
         else a2)"

text \<open>
  \<open>infer_knowledge\<close>, one pass of the while loop. Step A collects the cells of every
  Sentence with count 0 and of every Sentence whose count equals its size, then marks
  them (safe cells first). Python iterates the two sets in an unspecified order; the
  model walks them in sorted order, and \<open>fold_mark_safe\<close>, \<open>fold_mark_mine\<close> below show
  that the order does not matter. Step B drops the Sentences without cells. Step C is
  the subset inference over the remaining Sentences.
\<close>

definition safes_to_mark :: "sentence list \<Rightarrow> cell set" where
  "safes_to_mark K = \<Union> (set (map known_safes K))"

definition mines_to_mark :: "sentence list \<Rightarrow> cell set" where
  "mines_to_mark K = \<Union> (set (map known_mines K))"

definition mark_all :: "agent \<Rightarrow> agent" where
  "mark_all a =
     (let S = safes_to_mark (knowledge a); M = mines_to_mark (knowledge a)
      in if S \<noteq> {} \<or> M \<noteq> {}
         then fold (\<lambda>c b. mark_mine b c) (sorted_list_of_set M)
                (fold (\<lambda>c b. mark_safe b c) (sorted_list_of_set S) a)
         else a)"

definition remove_empty :: "agent \<Rightarrow> agent" where
  "remove_empty a = a\<lparr>knowledge := filter (\<lambda>s. card (cells s) > 0) (knowledge a)\<rparr>"

definition diff_sentence :: "sentence \<Rightarrow> sentence \<Rightarrow> sentence" where
  "diff_sentence s1 s2 = \<lparr>cells = cells s2 - cells s1, count = count s2 - count s1\<rparr>"

definition subset_step :: "sentence list \<Rightarrow> sentence \<Rightarrow> sentence \<Rightarrow> sentence list \<Rightarrow> sentence list" where
  "subset_step K s1 s2 new =
     (if s1 = s2 then new
      else if cells s1 \<subseteq> cells s2
      then (if card (cells (diff_sentence s1 s2)) > 0
               \<and> diff_sentence s1 s2 \<notin> set K \<and> diff_sentence s1 s2 \<notin> set new
            then new @ [diff_sentence s1 s2] else new)
      else new)"

definition new_sentences :: "sentence list \<Rightarrow> sentence list" where
  "new_sentences K = fold (\<lambda>s1 new. fold (\<lambda>s2 new'. subset_step K s1 s2 new') K new) K []"

definition subset_inference :: "agent \<Rightarrow> agent" where
  "subset_inference a = a\<lparr>knowledge := knowledge a @ new_sentences (knowledge a)\<rparr>"

definition infer_pass :: "agent \<Rightarrow> agent \<times> bool" where
  "infer_pass a =
     (let K = knowledge a;
          changesA = (safes_to_mark K \<noteq> {} \<or> mines_to_mark K \<noteq> {});
          b = remove_empty (mark_all a)
      in (subset_inference b, changesA \<or> new_sentences (knowledge b) \<noteq> []))"

text \<open>
  The while loop runs passes until one reports no change. It may run forever, so the
  model returns an option: \<open>None\<close> stands for a loop that does not return.
\<close>

partial_function (option) infer_loop :: "agent \<Rightarrow> agent option" where
  "infer_loop a =
     (case infer_pass a of (b, changes) \<Rightarrow> if changes then infer_loop b else Some b)"

declare infer_loop.simps [code]

definition infer_knowledge :: "agent \<Rightarrow> agent option" where
  "infer_knowledge a = infer_loop a"

definition add_knowledge :: "agent \<Rightarrow> cell \<Rightarrow> int \<Rightarrow> agent option" where
  "add_knowledge a cell cnt = infer_knowledge (add_sentence a cell cnt)"


section \<open>Frontier decomposition (hybrid\_agent.py, get\_components)\<close>

text \<open>
  The \<open>neighbors\<close> dictionary is an association list with one entry per fringe cell.
  A lookup of a missing key raises \<open>KeyError\<close> in Python; the model returns it as a
  value. For each Sentence the source links every pair of positions \<open>i < j\<close> of the list
  of its cells when both cells are keys.
\<close>

datatype error = KeyError

type_synonym neighbors = "(cell \<times> cell set) list"

fun pairs :: "'a list \<Rightarrow> ('a \<times> 'a) list" where
  "pairs [] = []"
| "pairs (x # xs) = map (\<lambda>y. (x, y)) xs @ pairs xs"

definition add_neighbor :: "cell \<Rightarrow> cell \<Rightarrow> neighbors \<Rightarrow> neighbors" where
  "add_neighbor c1 c2 nbs = map (\<lambda>(k, v). if k = c1 then (k, insert c2 v) else (k, v)) nbs"

definition link :: "cell \<times> cell \<Rightarrow> neighbors \<Rightarrow> neighbors" where
  "link p nbs =
     (case p of (c1, c2) \<Rightarrow>
        if map_of nbs c1 \<noteq> None \<and> map_of nbs c2 \<noteq> None
        then add_neighbor c2 c1 (add_neighbor c1 c2 nbs)
        else nbs)"

definition build_neighbors :: "sentence list \<Rightarrow> cell list \<Rightarrow> neighbors" where
  "build_neighbors K fringe =
     fold (\<lambda>s nbs. fold link (pairs (sorted_list_of_set (cells s))) nbs) K
       (map (\<lambda>c. (c, {})) (remdups fringe))"

text \<open>
  The inner while loop: the stack is a list with its top at the head; \<open>pop\<close> takes the
  head and the unvisited neighbours are pushed one after the other. The measure of the
  termination proof is the number of unvisited cells among the finite value sets of the
  dictionary plus the height of the stack.
\<close>

function dfs :: "neighbors \<Rightarrow> cell list \<Rightarrow> cell set \<Rightarrow> cell set \<Rightarrow> error + (cell set \<times> cell set)" where
  "dfs nbs [] visited component = Inr (visited, component)"
| "dfs nbs (cur # stack) visited component =
     (case map_of nbs cur of
        None \<Rightarrow> Inl KeyError
      | Some ns \<Rightarrow>
          dfs nbs (rev (filter (\<lambda>n. n \<notin> visited) (sorted_list_of_set ns)) @ stack)
            (visited \<union> set (filter (\<lambda>n. n \<notin> visited) (sorted_list_of_set ns)))
            (insert cur component))"
  by pat_completeness auto

definition universe :: "neighbors \<Rightarrow> cell set" where
  "universe nbs = \<Union> {v. v \<in> snd ` set nbs \<and> finite v}"

lemma finite_universe: "finite (universe nbs)"
  unfolding universe_def by (rule finite_Union) auto

lemma map_of_universe:
  assumes "map_of nbs k = Some ns" "finite ns"
  shows "ns \<subseteq> universe nbs"
proof -
  have "(k, ns) \<in> set nbs"
    using assms(1) by (rule map_of_SomeD)
  then have "ns \<in> snd ` set nbs"
    by force
  then show ?thesis
    unfolding universe_def using assms(2) by blast
qed

lemma card_unvisited:
  assumes "finite U" "set new \<subseteq> U" "distinct new" "set new \<inter> visited = {}"
  shows "card (U - (visited \<union> set new)) + length new = card (U - visited)"
proof -
  have "U - visited = (U - (visited \<union> set new)) \<union> set new"
    using assms(2,4) by auto
  moreover have "card ((U - (visited \<union> set new)) \<union> set new)
      = card (U - (visited \<union> set new)) + card (set new)"
    by (rule card_Un_disjoint) (use assms(1) in auto)
  ultimately show ?thesis
    using distinct_card[OF assms(3)] by simp
qed

lemma dfs_measure:
  assumes ns: "map_of nbs cur = Some ns"
    and new: "new = filter (\<lambda>n. n \<notin> visited) (sorted_list_of_set ns)"
  shows "card (universe nbs - (visited \<union> set new)) + length (rev new @ stack)
           < card (universe nbs - visited) + length (cur # stack)"
proof -
  have "card (universe nbs - (visited \<union> set new)) + length new = card (universe nbs - visited)"
  proof (cases "finite ns")
    case True
    have sub: "set new \<subseteq> universe nbs"
      using map_of_universe[OF ns True] True unfolding new by auto
    have dis: "distinct new"
      unfolding new by simp
    have inter: "set new \<inter> visited = {}"
      unfolding new by auto
    show ?thesis
      by (rule card_unvisited[OF finite_universe sub dis inter])
  next
    case False
    then have "new = []"
      unfolding new by simp
    then show ?thesis by simp
  qed
  then show ?thesis by simp
qed

termination dfs
  apply (relation "measure (\<lambda>(nbs, stack, visited, component).
                    card (universe nbs - visited) + length stack)")
   apply simp
  apply (simp only: in_measure prod.case)
  apply (rule dfs_measure)
   apply assumption
  apply (rule refl)
  done

fun components_loop :: "neighbors \<Rightarrow> cell list \<Rightarrow> cell set \<Rightarrow> cell set list \<Rightarrow> error + cell set list" where
  "components_loop nbs [] visited components = Inr components"
| "components_loop nbs (cell # fringe) visited components =
     (if cell \<in> visited then components_loop nbs fringe visited components
      else (case dfs nbs [cell] (insert cell visited) {} of
              Inl e \<Rightarrow> Inl e
            | Inr (visited', component) \<Rightarrow>
                components_loop nbs fringe visited' (components @ [component])))"

definition get_components :: "sentence list \<Rightarrow> cell list \<Rightarrow> error + cell set list" where
  "get_components K fringe = components_loop (build_neighbors K fringe) fringe {} []"


text \<open>
  Notions for the statements about the decomposition: the value stored for a key of the
  dictionary (empty for a missing key), and the relation "two different cells occur
  together in some Sentence".
\<close>

definition nbr :: "neighbors \<Rightarrow> cell \<Rightarrow> cell set" where
  "nbr nbs k = (case map_of nbs k of None \<Rightarrow> {} | Some v \<Rightarrow> v)"

definition adjacent :: "sentence list \<Rightarrow> cell \<Rightarrow> cell \<Rightarrow> bool" where
  "adjacent K k x \<longleftrightarrow> (\<exists>s\<in>set K. finite (cells s) \<and> k \<in> cells s \<and> x \<in> cells s \<and> k \<noteq> x)"

text \<open>
  A list of components is a closed partition inside \<open>F\<close> when the components are
  pairwise different and disjoint, none is empty, each lies in \<open>F\<close> and each contains
  the stored neighbours of its cells.
\<close>

definition closed_partition :: "neighbors \<Rightarrow> cell set \<Rightarrow> cell set list \<Rightarrow> bool" where
  "closed_partition nbs F comps \<longleftrightarrow>
     distinct comps \<and>
     (\<forall>c\<in>set comps. c \<subseteq> F \<and> c \<noteq> {} \<and> (\<forall>k\<in>c. nbr nbs k \<subseteq> c)) \<and>
     (\<forall>c\<in>set comps. \<forall>d\<in>set comps. c \<noteq> d \<longrightarrow> c \<inter> d = {})"

section \<open>Exact estimator (hybrid\_agent.py, solve\_component\_exact)\<close>

text \<open>
  An assignment is a dictionary from the cells of the component to 0 or 1. The patterns
  are those of \<open>itertools.product([0, 1], repeat=n)\<close>, in its order. The dictionary
  \<open>mine_counts\<close> has the cells of the component as keys and is only read at those keys; the
  model is a total function, 0 elsewhere. Probabilities are quotients of two natural
  numbers below \<open>2^53\<close> that the source only compares with \<open><\<close>; the model keeps the exact
  quotient. The MCMC agent's own copy of \<open>solve_component_exact\<close> writes the body of
  \<open>check_consistent\<close> inline and is the same computation.
\<close>

type_synonym estimate = "cell option \<times> rat"

definition mine_count :: "(cell \<rightharpoonup> int) \<Rightarrow> sentence \<Rightarrow> int" where
  "mine_count asg s = (\<Sum>c\<in>cells s. case asg c of Some v \<Rightarrow> v | None \<Rightarrow> 0)"

definition unknowns :: "(cell \<rightharpoonup> int) \<Rightarrow> sentence \<Rightarrow> nat" where
  "unknowns asg s = card (Set.filter (\<lambda>c. asg c = None) (cells s))"

fun check_consistent :: "(cell \<rightharpoonup> int) \<Rightarrow> sentence list \<Rightarrow> bool" where
  "check_consistent asg [] = True"
| "check_consistent asg (s # ss) =
     (if unknowns asg s = 0 \<and> mine_count asg s \<noteq> count s then False
      else if mine_count asg s > count s then False
      else check_consistent asg ss)"

fun patterns :: "nat \<Rightarrow> int list list" where
  "patterns 0 = [[]]"
| "patterns (Suc n) = map ((#) 0) (patterns n) @ map ((#) 1) (patterns n)"

definition assignment :: "cell list \<Rightarrow> int list \<Rightarrow> (cell \<rightharpoonup> int)" where
  "assignment comp_list pattern = fold (\<lambda>(c, v) m. m(c \<mapsto> v)) (zip comp_list pattern) Map.empty"

definition relevant_knowledge :: "sentence list \<Rightarrow> cell list \<Rightarrow> sentence list" where
  "relevant_knowledge K comp_list = filter (\<lambda>s. cells s \<inter> set comp_list \<noteq> {}) K"

definition count_world :: "cell list \<Rightarrow> sentence list \<Rightarrow> int list \<Rightarrow> nat \<times> (cell \<Rightarrow> nat) \<Rightarrow> nat \<times> (cell \<Rightarrow> nat)" where
  "count_world comp_list rel pattern acc =
     (case acc of (valid_worlds, mine_counts) \<Rightarrow>
        if check_consistent (assignment comp_list pattern) rel
        then (valid_worlds + 1,
              fold (\<lambda>cell mc. if assignment comp_list pattern cell = Some 1
                               then mc(cell := mc cell + 1) else mc) comp_list mine_counts)
        else (valid_worlds, mine_counts))"

definition count_worlds :: "sentence list \<Rightarrow> cell list \<Rightarrow> nat \<times> (cell \<Rightarrow> nat)" where
  "count_worlds K comp_list =
     fold (count_world comp_list (relevant_knowledge K comp_list)) (patterns (length comp_list)) (0, \<lambda>_. 0)"

definition best_cell :: "cell list \<Rightarrow> nat \<Rightarrow> (cell \<Rightarrow> nat) \<Rightarrow> estimate" where
  "best_cell comp_list valid_worlds mine_counts =
     fold (\<lambda>cell best. if of_nat (mine_counts cell) / of_nat valid_worlds < snd best
                         then (Some cell, of_nat (mine_counts cell) / of_nat valid_worlds)
                         else best) comp_list (None, 1)"

definition solve_component_exact :: "sentence list \<Rightarrow> cell list \<Rightarrow> estimate" where
  "solve_component_exact K comp_list =
     (case count_worlds K comp_list of (valid_worlds, mine_counts) \<Rightarrow>
        if valid_worlds = 0 then (None, 1) else best_cell comp_list valid_worlds mine_counts)"

section \<open>Choosing the action (get\_action of the three agents)\<close>

text \<open>
  The observation is read at the cells of the grid only and is a function from cells to
  integers. \<open>get_action\<close> first feeds every revealed cell that is not yet a move made to
  \<open>add_knowledge\<close>, rows outer, columns inner. The random source is a parameter:
  \<open>shuffle\<close> stands for \<open>random.shuffle\<close> and \<open>choice\<close> for \<open>random.choice\<close>. The loop
  over the components takes the two estimators as functions from the list of cells of a
  component to the pair they return; the Monte Carlo and the simulated annealing
  estimator, which draw random numbers, are defined further down and put in there.
  Iteration over a Python set is modelled in sorted order.
\<close>

record rnd =
  shuffle :: "cell list \<Rightarrow> cell list"
  choice :: "cell list \<Rightarrow> cell"

type_synonym action = "int \<times> int \<times> int"

definition grid :: "agent \<Rightarrow> cell list" where
  "grid a = concat (map (\<lambda>r. map (\<lambda>c. (r, c)) [0 .. cols a - 1]) [0 .. rows a - 1])"

fun sync :: "(cell \<Rightarrow> int) \<Rightarrow> cell list \<Rightarrow> agent \<Rightarrow> agent option" where
  "sync obs [] a = Some a"
| "sync obs (p # ps) a =
     (if obs p \<ge> 0 \<and> p \<notin> moves_made a
      then (case add_knowledge a p (obs p) of None \<Rightarrow> None | Some b \<Rightarrow> sync obs ps b)
      else sync obs ps a)"

definition safe_move :: "agent \<Rightarrow> action option" where
  "safe_move a =
     (case filter (\<lambda>safe. safe \<notin> moves_made a) (sorted_list_of_set (safes a)) of
        [] \<Rightarrow> None
      | safe # _ \<Rightarrow> Some (fst safe, snd safe, 0))"

definition possible_moves :: "agent \<Rightarrow> cell list" where
  "possible_moves a = filter (\<lambda>p. p \<notin> moves_made a \<and> p \<notin> mines a) (grid a)"

definition csp_choose :: "rnd \<Rightarrow> agent \<Rightarrow> action option" where
  "csp_choose g a =
     (case safe_move a of
        Some act \<Rightarrow> Some act
      | None \<Rightarrow>
          if possible_moves a \<noteq> []
          then Some (fst (choice g (possible_moves a)), snd (choice g (possible_moves a)), 0)
          else None)"

definition csp_get_action :: "rnd \<Rightarrow> (cell \<Rightarrow> int) \<Rightarrow> agent \<Rightarrow> (agent \<times> action option) option" where
  "csp_get_action g obs a =
     (case sync obs (grid a) a of None \<Rightarrow> None | Some b \<Rightarrow> Some (b, csp_choose g b))"

definition get_smart_guess :: "rnd \<Rightarrow> agent \<Rightarrow> action option" where
  "get_smart_guess g a =
     (case filter (\<lambda>p. p \<notin> moves_made a \<and> p \<notin> mines a)
             (shuffle g [(0, 0), (0, cols a - 1), (rows a - 1, 0), (rows a - 1, cols a - 1)]) of
        p # _ \<Rightarrow> Some (fst p, snd p, 0)
      | [] \<Rightarrow>
         (let edges = filter (\<lambda>p. (fst p = 0 \<or> fst p = rows a - 1 \<or> snd p = 0 \<or> snd p = cols a - 1)
                                  \<and> p \<notin> moves_made a \<and> p \<notin> mines a) (grid a)
          in if edges \<noteq> [] then Some (fst (choice g edges), snd (choice g edges), 0)
             else if possible_moves a \<noteq> []
             then Some (fst (choice g (possible_moves a)), snd (choice g (possible_moves a)), 0)
             else None))"

definition estimate_component :: "(cell list \<Rightarrow> estimate) \<Rightarrow> (cell list \<Rightarrow> estimate) \<Rightarrow> cell set \<Rightarrow> estimate" where
  "estimate_component exact approx component =
     (if card component \<le> 18 then exact (sorted_list_of_set component)
      else approx (sorted_list_of_set component))"

fun best_over :: "(cell list \<Rightarrow> estimate) \<Rightarrow> (cell list \<Rightarrow> estimate) \<Rightarrow> cell set list \<Rightarrow> estimate \<Rightarrow> estimate" where
  "best_over exact approx [] best = best"
| "best_over exact approx (component # comps) best =
     (case estimate_component exact approx component of (move, prob) \<Rightarrow>
        if move \<noteq> None \<and> prob < snd best
        then best_over exact approx comps (move, prob)
        else best_over exact approx comps best)"

definition fringe_list :: "agent \<Rightarrow> cell list" where
  "fringe_list a = sorted_list_of_set (\<Union> (set (map cells (knowledge a))))"

definition probability_choose :: "(cell list \<Rightarrow> estimate) \<Rightarrow> (cell list \<Rightarrow> estimate) \<Rightarrow> rnd \<Rightarrow> agent \<Rightarrow> error + action option" where
  "probability_choose exact approx g a =
     (case safe_move a of
        Some act \<Rightarrow> Inr (Some act)
      | None \<Rightarrow>
          if fringe_list a = [] then Inr (get_smart_guess g a)
          else (case get_components (knowledge a) (fringe_list a) of
                  Inl e \<Rightarrow> Inl e
                | Inr components \<Rightarrow>
                    (case fst (best_over exact approx components (None, 1)) of
                       Some move \<Rightarrow> Inr (Some (fst move, snd move, 0))
                     | None \<Rightarrow> Inr (get_smart_guess g a))))"

text \<open>
  The hybrid agent estimates large components by Monte Carlo sampling, the MCMC agent by
  simulated annealing; both use the exact estimator up to 18 cells. The estimator for the
  larger components is the argument \<open>approx\<close>; \<open>hybrid_agent_choose\<close> and
  \<open>mcmc_agent_choose\<close> further down put in the estimator of each agent.
\<close>

definition hybrid_choose :: "(cell list \<Rightarrow> estimate) \<Rightarrow> rnd \<Rightarrow> agent \<Rightarrow> error + action option" where
  "hybrid_choose approx g a =
     probability_choose (solve_component_exact (knowledge a)) approx g a"

definition mcmc_choose :: "(cell list \<Rightarrow> estimate) \<Rightarrow> rnd \<Rightarrow> agent \<Rightarrow> error + action option" where
  "mcmc_choose approx g a =
     probability_choose (solve_component_exact (knowledge a)) approx g a"

definition hybrid_get_action :: "(cell list \<Rightarrow> estimate) \<Rightarrow> rnd \<Rightarrow> (cell \<Rightarrow> int) \<Rightarrow> agent \<Rightarrow> (agent \<times> (error + action option)) option" where
  "hybrid_get_action mc g obs a =
     (case sync obs (grid a) a of None \<Rightarrow> None | Some b \<Rightarrow> Some (b, hybrid_choose mc g b))"

definition mcmc_get_action :: "(cell list \<Rightarrow> estimate) \<Rightarrow> rnd \<Rightarrow> (cell \<Rightarrow> int) \<Rightarrow> agent \<Rightarrow> (agent \<times> (error + action option)) option" where
  "mcmc_get_action sa g obs a =
     (case sync obs (grid a) a of None \<Rightarrow> None | Some b \<Rightarrow> Some (b, mcmc_choose sa g b))"


section \<open>States of a game\<close>

text \<open>
  Notions for the statement about termination. \<open>L\<close> is the set of cells that hold a mine.
  A Sentence is true of \<open>L\<close> when its cell set is finite and its count is the number of
  its cells in \<open>L\<close>. A knowledge base is consistent with \<open>L\<close> when no known safe cell is a
  mine, every known mine is one, and every Sentence is true of \<open>L\<close> and mentions no cell
  already known safe or known to be a mine. The states of a game on \<open>L\<close> are those reached
  from the empty knowledge base by \<open>add_knowledge\<close> of a cell without mine together with
  the number of mines among its in-bounds neighbours, which is what the environment
  shows for a revealed cell.
\<close>

definition sentence_true :: "cell set \<Rightarrow> sentence \<Rightarrow> bool" where
  "sentence_true L s \<longleftrightarrow> finite (cells s) \<and> count s = int (card (cells s \<inter> L))"

definition consistent :: "cell set \<Rightarrow> agent \<Rightarrow> bool" where
  "consistent L a \<longleftrightarrow>
     safes a \<inter> L = {} \<and> mines a \<subseteq> L \<and>
     (\<forall>s\<in>set (knowledge a). sentence_true L s \<and> cells s \<inter> (safes a \<union> mines a) = {})"

definition hint :: "cell set \<Rightarrow> agent \<Rightarrow> cell \<Rightarrow> int" where
  "hint L a cell = int (card (set (window a cell) \<inter> L))"

inductive game_state :: "cell set \<Rightarrow> agent \<Rightarrow> bool" for L :: "cell set" where
  start: "game_state L (init_agent h w)"
| reveal: "game_state L a \<Longrightarrow> cell \<notin> L \<Longrightarrow> add_knowledge a cell (hint L a cell) = Some b
           \<Longrightarrow> game_state L b"

text \<open>The cells still mentioned by a Sentence, and the Sentences that have cells.\<close>

definition frontier :: "agent \<Rightarrow> cell set" where
  "frontier a = \<Union> (cells ` set (knowledge a))"

definition live :: "agent \<Rightarrow> sentence set" where
  "live a = {s \<in> set (knowledge a). cells s \<noteq> {}}"


text \<open>
  A family of knowledge bases that no mine layout explains: two Sentences over the same
  two cells with counts 4 and 1, a Sentence over the first cell alone, and otherwise only
  Sentences over one of the two cells with a count congruent to 2 modulo 3.
\<close>

definition unexplained :: "cell \<Rightarrow> cell \<Rightarrow> agent \<Rightarrow> bool" where
  "unexplained u v a \<longleftrightarrow>
     u \<noteq> v \<and>
     \<lparr>cells = {u, v}, count = 4\<rparr> \<in> set (knowledge a) \<and>
     \<lparr>cells = {u, v}, count = 1\<rparr> \<in> set (knowledge a) \<and>
     (\<exists>s\<in>set (knowledge a). cells s = {u}) \<and>
     (\<forall>s\<in>set (knowledge a).
        (cells s = {u, v} \<and> (count s = 4 \<or> count s = 1)) \<or>
        ((cells s = {u} \<or> cells s = {v}) \<and> count s mod 3 = 2))"


section \<open>The board as the observation shows it (minesweeper\_env.py, \_get\_obs)\<close>

text \<open>
  In an observation a covered cell shows \<open>-2\<close>, a flagged one \<open>-3\<close> and a revealed one its
  number, from 0. The two sets below read the wording "unrevealed, unflagged neighbours"
  and "flagged neighbours" on the observation; they are compared with what
  \<open>add_knowledge\<close> collects from the sets of the knowledge base.
\<close>

definition unrevealed_unflagged :: "(cell \<Rightarrow> int) \<Rightarrow> agent \<Rightarrow> cell \<Rightarrow> cell set" where
  "unrevealed_unflagged obs a cell = set (filter (\<lambda>p. obs p = - 2) (window a cell))"

definition flagged_neighbours :: "(cell \<Rightarrow> int) \<Rightarrow> agent \<Rightarrow> cell \<Rightarrow> cell set" where
  "flagged_neighbours obs a cell = set (filter (\<lambda>p. obs p = - 3) (window a cell))"

section \<open>Approximate estimators (solve\_component\_monte\_carlo, solve\_component\_mcmc)\<close>

text \<open>
  The Monte Carlo estimator of the hybrid agent draws 5000 assignments, each by one
  \<open>random.choice([0, 1])\<close> per cell of the component in the order of the list, and
  tallies the consistent ones as the exact estimator does. The draws are a parameter:
  \<open>bits k\<close> is the \<open>k\<close>-th draw of the call, true for 1.
\<close>

definition random_pattern :: "nat \<Rightarrow> (nat \<Rightarrow> bool) \<Rightarrow> nat \<Rightarrow> int list" where
  "random_pattern n bits i = map (\<lambda>j. if bits (i * n + j) then 1 else 0) [0 ..< n]"

definition sample_worlds :: "sentence list \<Rightarrow> cell list \<Rightarrow> (nat \<Rightarrow> bool) \<Rightarrow> nat \<times> (cell \<Rightarrow> nat)" where
  "sample_worlds K comp_list bits =
     fold (\<lambda>i. count_world comp_list (relevant_knowledge K comp_list)
                  (random_pattern (length comp_list) bits i))
       [0 ..< 5000] (0, \<lambda>_. 0)"

definition solve_component_monte_carlo :: "sentence list \<Rightarrow> cell list \<Rightarrow> (nat \<Rightarrow> bool) \<Rightarrow> estimate" where
  "solve_component_monte_carlo K comp_list bits =
     (case sample_worlds K comp_list bits of (valid_worlds, mine_counts) \<Rightarrow>
        if valid_worlds = 0 then (None, 1) else best_cell comp_list valid_worlds mine_counts)"

text \<open>
  The simulated annealing estimator of the MCMC agent starts from a random assignment and
  makes 15000 steps. A step flips the value of a cell drawn by \<open>random.choice(comp)\<close>,
  keeps the flip when the energy does not grow, and otherwise keeps it when
  \<open>random.random()\<close> is below an acceptance probability computed in floating point from
  the temperature; a rejected flip is undone. After each step a state of energy 0 is
  tallied. The energy is an integer, the sum over the relevant Sentences of the distance
  between the mines assigned to its cells and its count. The random source is a
  parameter: \<open>initial_bit j\<close> is the draw for the \<open>j\<close>-th cell of the initial state,
  \<open>flip_choice k\<close> chooses the cell of step \<open>k\<close> (taken modulo the length of the list, which
  has more than 18 cells where the agent calls the estimator) and \<open>accept k\<close> is the
  outcome of the comparison of \<open>random.random()\<close> with the acceptance probability at step
  \<open>k\<close>, read only when the energy grows. The temperature enters nowhere else.
\<close>

record annealing_source =
  initial_bit :: "nat \<Rightarrow> bool"
  flip_choice :: "nat \<Rightarrow> nat"
  accept :: "nat \<Rightarrow> bool"

definition calc_energy :: "sentence list \<Rightarrow> (cell \<rightharpoonup> int) \<Rightarrow> int" where
  "calc_energy rel st = sum_list (map (\<lambda>s. \<bar>mine_count st s - count s\<bar>) rel)"

definition flip :: "(cell \<rightharpoonup> int) \<Rightarrow> cell \<Rightarrow> (cell \<rightharpoonup> int)" where
  "flip st c = (case st c of None \<Rightarrow> st | Some v \<Rightarrow> st(c \<mapsto> 1 - v))"

definition collect_sample :: "cell list \<Rightarrow> (cell \<rightharpoonup> int) \<Rightarrow> (cell \<Rightarrow> nat) \<Rightarrow> (cell \<Rightarrow> nat)" where
  "collect_sample comp_list st mine_counts =
     fold (\<lambda>c mc. if st c = Some 1 then mc(c := mc c + 1) else mc) comp_list mine_counts"

type_synonym annealing_state = "(cell \<rightharpoonup> int) \<times> int \<times> nat \<times> (cell \<Rightarrow> nat)"

definition anneal_step :: "cell list \<Rightarrow> sentence list \<Rightarrow> annealing_source \<Rightarrow> nat \<Rightarrow> annealing_state \<Rightarrow> annealing_state" where
  "anneal_step comp_list rel src step acc =
     (case acc of (state, current_energy, valid_samples, mine_counts) \<Rightarrow>
        let cell_to_flip = comp_list ! (flip_choice src step mod length comp_list);
            proposed = flip state cell_to_flip;
            new_energy = calc_energy rel proposed;
            accepted = (new_energy \<le> current_energy \<or> accept src step);
            state' = (if accepted then proposed else flip proposed cell_to_flip);
            energy' = (if accepted then new_energy else current_energy)
        in if energy' = 0
           then (state', energy', valid_samples + 1, collect_sample comp_list state' mine_counts)
           else (state', energy', valid_samples, mine_counts))"

definition anneal :: "sentence list \<Rightarrow> cell list \<Rightarrow> annealing_source \<Rightarrow> annealing_state" where
  "anneal K comp_list src =
     (let rel = relevant_knowledge K comp_list;
          state = assignment comp_list
                    (map (\<lambda>j. if initial_bit src j then 1 else 0) [0 ..< length comp_list])
      in fold (anneal_step comp_list rel src) [0 ..< 15000]
           (state, calc_energy rel state, 0, \<lambda>_. 0))"

definition solve_component_mcmc :: "sentence list \<Rightarrow> cell list \<Rightarrow> annealing_source \<Rightarrow> estimate" where
  "solve_component_mcmc K comp_list src =
     (case anneal K comp_list src of (state, energy, valid_samples, mine_counts) \<Rightarrow>
        if valid_samples = 0 then (None, 1) else best_cell comp_list valid_samples mine_counts)"

text \<open>
  The choice \<open>get_action\<close> of the hybrid agent and of the MCMC agent makes once the
  observation is ingested, with the estimator each one calls above 18 cells: \<open>bits xs\<close>
  and \<open>src xs\<close> are the draws of the call for the component with cell list \<open>xs\<close>.
\<close>

definition hybrid_agent_choose :: "(cell list \<Rightarrow> nat \<Rightarrow> bool) \<Rightarrow> rnd \<Rightarrow> agent \<Rightarrow> error + action option" where
  "hybrid_agent_choose bits g a =
     hybrid_choose (\<lambda>xs. solve_component_monte_carlo (knowledge a) xs (bits xs)) g a"

definition mcmc_agent_choose :: "(cell list \<Rightarrow> annealing_source) \<Rightarrow> rnd \<Rightarrow> agent \<Rightarrow> error + action option" where
  "mcmc_agent_choose src g a =
     mcmc_choose (\<lambda>xs. solve_component_mcmc (knowledge a) xs (src xs)) g a"

text \<open>
  The outcome of the loop over the components, said without the loop. \<open>est\<close> gives the
  pair a component is estimated with. A component is usable when its pair holds a cell
  and a probability below 1. With a usable component the action reveals the cell of a
  component whose pair holds a cell and a probability that is below 1 and is the least
  among the pairs that hold a cell; without one the action is that of \<open>get_smart_guess\<close>.
\<close>

definition picks_least :: "(cell set \<Rightarrow> estimate) \<Rightarrow> cell set list \<Rightarrow> rnd \<Rightarrow> agent \<Rightarrow> error + action option \<Rightarrow> bool" where
  "picks_least est comps g a result \<longleftrightarrow>
     (if \<exists>c\<in>set comps. fst (est c) \<noteq> None \<and> snd (est c) < 1
      then \<exists>c\<in>set comps. \<exists>move.
             est c = (Some move, snd (est c)) \<and> snd (est c) < 1 \<and>
             (\<forall>d\<in>set comps. fst (est d) \<noteq> None \<longrightarrow> snd (est c) \<le> snd (est d)) \<and>
             result = Inr (Some (fst move, snd move, 0))
      else result = Inr (get_smart_guess g a))"

section \<open>Idempotence of the mark operations\<close>

text \<open>
  C9. \<open>mark_safe\<close> and \<open>mark_mine\<close> are idempotent: a second call with the same cell
  returns at the membership test and leaves the whole agent state (moves made, known
  safe cells, known mines and every Sentence) as the first call left it.
\<close>

theorem mark_idempotent:
  "mark_safe (mark_safe a c) c = mark_safe a c \<and>
   mark_mine (mark_mine a c) c = mark_mine a c"
  by (simp add: mark_safe_def mark_mine_def)

section \<open>Ingest of an observation\<close>

lemma set_window:
  "set (window a cell) =
     {(r, c). fst cell - 1 \<le> r \<and> r \<le> fst cell + 1 \<and> snd cell - 1 \<le> c \<and> c \<le> snd cell + 1 \<and>
        (r, c) \<noteq> cell \<and> 0 \<le> r \<and> r < rows a \<and> 0 \<le> c \<and> c < cols a}"
  by (auto simp: window_def split: if_splits)

lemma distinct_window: "distinct (window a cell)"
proof -
  have inner: "distinct (concat (map (\<lambda>c. if P c then [] else if Q c then [(r, c)] else []) cs))"
    if "distinct cs" for P Q :: "int \<Rightarrow> bool" and r :: int and cs
    using that by (induction cs) (auto split: if_splits)
  have outer: "distinct (concat (map (\<lambda>r. concat (map (\<lambda>c. if P r c then [] else if Q r c then [(r, c)] else []) cs)) rs))"
    if "distinct cs" "distinct rs" for P Q :: "int \<Rightarrow> int \<Rightarrow> bool" and rs cs
    using that by (induction rs) (auto simp: inner split: if_splits)
  show ?thesis
    unfolding window_def by (rule outer) simp_all
qed

lemma cell_notin_window: "cell \<notin> set (window a cell)"
  by (auto simp: set_window)

lemma safes_mark_safe: "safes (mark_safe a c) = insert c (safes a)"
  by (auto simp: mark_safe_def)

lemma mines_mark_safe: "mines (mark_safe a c) = mines a"
  by (auto simp: mark_safe_def)

lemma window_cong: "rows b = rows a \<Longrightarrow> cols b = cols a \<Longrightarrow> window b cell = window a cell"
  unfolding window_def by (simp cong: if_cong)

lemma add_sentence_fields:
  "cell \<in> safes (add_sentence a cell h) \<and>
   cell \<in> moves_made (add_sentence a cell h) \<and>
   safes (add_sentence a cell h) = insert cell (safes a) \<and>
   moves_made (add_sentence a cell h) = insert cell (moves_made a) \<and>
   mines (add_sentence a cell h) = mines a \<and>
   set (window a cell) =
     {(r, c). fst cell - 1 \<le> r \<and> r \<le> fst cell + 1 \<and> snd cell - 1 \<le> c \<and> c \<le> snd cell + 1 \<and>
        (r, c) \<noteq> cell \<and> 0 \<le> r \<and> r < rows a \<and> 0 \<le> c \<and> c < cols a} \<and>
   knowledge (add_sentence a cell h) =
     knowledge (mark_safe a cell) @
       (if {p \<in> set (window a cell). p \<notin> mines a \<and> p \<notin> safes a} \<noteq> {}
        then [\<lparr>cells = {p \<in> set (window a cell). p \<notin> mines a \<and> p \<notin> safes a},
               count = h - int (card (set (window a cell) \<inter> mines a))\<rparr>]
        else [])"
proof -
  let ?a1 = "mark_safe a cell"
  let ?a2 = "?a1\<lparr>moves_made := insert cell (moves_made ?a1)\<rparr>"
  have w: "window ?a2 cell = window a cell"
    by (rule window_cong) (simp_all add: mark_safe_def)
  have hid: "set (hidden_neighbours ?a2 cell) = {p \<in> set (window a cell). p \<notin> mines a \<and> p \<notin> safes a}"
    using cell_notin_window[of cell a]
    by (auto simp: hidden_neighbours_def w safes_mark_safe mines_mark_safe)
  have "length (filter (\<lambda>p. p \<in> mines a) (window a cell)) = card (set (filter (\<lambda>p. p \<in> mines a) (window a cell)))"
    by (rule distinct_card[symmetric]) (rule distinct_filter[OF distinct_window])
  also have "set (filter (\<lambda>p. p \<in> mines a) (window a cell)) = set (window a cell) \<inter> mines a"
    by auto
  finally have mf: "mines_found ?a2 cell = int (card (set (window a cell) \<inter> mines a))"
    by (simp add: mines_found_def w mines_mark_safe)
  have mm: "moves_made ?a1 = moves_made a"
    by (simp add: mark_safe_def)
  have ne: "hidden_neighbours ?a2 cell \<noteq> [] \<longleftrightarrow> set (hidden_neighbours ?a2 cell) \<noteq> {}"
    by simp
  have k: "knowledge (add_sentence a cell h) =
     knowledge (mark_safe a cell) @
       (if {p \<in> set (window a cell). p \<notin> mines a \<and> p \<notin> safes a} \<noteq> {}
        then [\<lparr>cells = {p \<in> set (window a cell). p \<notin> mines a \<and> p \<notin> safes a},
               count = h - int (card (set (window a cell) \<inter> mines a))\<rparr>]
        else [])"
    unfolding add_sentence_def Let_def ne mf
    unfolding hid
    by simp
  have sf: "safes (add_sentence a cell h) = insert cell (safes a)"
    by (simp add: add_sentence_def Let_def safes_mark_safe)
  have mv: "moves_made (add_sentence a cell h) = insert cell (moves_made a)"
    by (simp add: add_sentence_def Let_def mm)
  have mi: "mines (add_sentence a cell h) = mines a"
    by (simp add: add_sentence_def Let_def mines_mark_safe)
  show ?thesis
    apply (intro conjI)
          apply (simp add: sf)
         apply (simp add: mv)
        apply (rule sf)
       apply (rule mv)
      apply (rule mi)
     apply (rule set_window)
    apply (rule k)
    done
qed

text \<open>
  C4 (as the code has it). Ingest of a revealed cell with hint \<open>h\<close> (\<open>add_knowledge\<close>
  before it runs the inference loop): the cell is marked safe and added to the moves
  made; the neighbours are the in-bounds cells of the 3x3 window other than the cell;
  exactly one Sentence is appended when some neighbour is neither a known mine nor known
  safe, with those neighbours as cells and \<open>h\<close> minus the number of known-mine neighbours
  as count; no Sentence is appended when there is no such neighbour. The neighbours are
  told apart by the sets \<open>mines\<close> and \<open>safes\<close> of the knowledge base, whatever the board
  shows as covered, revealed or flagged.
\<close>

theorem add_sentence_ingest:
  "cell \<in> safes (add_sentence a cell h) \<and>
   cell \<in> moves_made (add_sentence a cell h) \<and>
   safes (add_sentence a cell h) = insert cell (safes a) \<and>
   moves_made (add_sentence a cell h) = insert cell (moves_made a) \<and>
   mines (add_sentence a cell h) = mines a \<and>
   set (window a cell) =
     {(r, c). fst cell - 1 \<le> r \<and> r \<le> fst cell + 1 \<and> snd cell - 1 \<le> c \<and> c \<le> snd cell + 1 \<and>
        (r, c) \<noteq> cell \<and> 0 \<le> r \<and> r < rows a \<and> 0 \<le> c \<and> c < cols a} \<and>
   knowledge (add_sentence a cell h) =
     knowledge (mark_safe a cell) @
       (if {p \<in> set (window a cell). p \<notin> mines a \<and> p \<notin> safes a} \<noteq> {}
        then [\<lparr>cells = {p \<in> set (window a cell). p \<notin> mines a \<and> p \<notin> safes a},
               count = h - int (card (set (window a cell) \<inter> mines a))\<rparr>]
        else [])"
  by (rule add_sentence_fields)

text \<open>
  The claim as stated, with the neighbours read on the board, fails: \<open>add_knowledge\<close>
  never looks at the observation. First game, two rows and four columns, mines at
  \<open>(0, 0)\<close> and \<open>(0, 3)\<close>: after the cells \<open>(0, 2)\<close>, \<open>(1, 2)\<close> and \<open>(1, 3)\<close> have shown hint 1
  the agent knows that \<open>(0, 1)\<close> and \<open>(1, 1)\<close> are safe and plays \<open>(0, 1)\<close>, which shows
  hint 1. Its covered, unflagged neighbours on the board are \<open>(0, 0)\<close>, \<open>(1, 0)\<close> and
  \<open>(1, 1)\<close>, but the Sentence appended has the cells \<open>(0, 0)\<close> and \<open>(1, 0)\<close> only. Second
  game, one row and four columns, mine at \<open>(0, 1)\<close>: after \<open>(0, 0)\<close> has shown hint 1 the
  agent knows the mine and plays \<open>(0, 2)\<close>, which shows hint 1. No cell of the board is
  flagged and the covered neighbours are \<open>(0, 1)\<close> and \<open>(0, 3)\<close>, but the Sentence appended
  has the single cell \<open>(0, 3)\<close> and count 0.
\<close>

theorem ingest_reads_knowledge_not_board:
  "csp_get_action \<lparr>shuffle = (\<lambda>xs. xs), choice = hd\<rparr>
      (\<lambda>p. if p \<in> {(0, 2), (1, 2), (1, 3)} then 1 else - 2) (init_agent 2 4)
     = Some (\<lparr>rows = 2, cols = 4, moves_made = {(1, 3), (1, 2), (0, 2)}, mines = {(0, 3)},
               safes = {(1, 1), (0, 1), (1, 3), (1, 2), (0, 2)}, knowledge = []\<rparr>,
             Some (0, 1, 0)) \<and>
   unrevealed_unflagged (\<lambda>p. if p \<in> {(0, 1), (0, 2), (1, 2), (1, 3)} then 1 else - 2)
      \<lparr>rows = 2, cols = 4, moves_made = {(1, 3), (1, 2), (0, 2)}, mines = {(0, 3)},
        safes = {(1, 1), (0, 1), (1, 3), (1, 2), (0, 2)}, knowledge = []\<rparr> (0, 1)
     = {(0, 0), (1, 0), (1, 1)} \<and>
   flagged_neighbours (\<lambda>p. if p \<in> {(0, 1), (0, 2), (1, 2), (1, 3)} then 1 else - 2)
      \<lparr>rows = 2, cols = 4, moves_made = {(1, 3), (1, 2), (0, 2)}, mines = {(0, 3)},
        safes = {(1, 1), (0, 1), (1, 3), (1, 2), (0, 2)}, knowledge = []\<rparr> (0, 1)
     = {} \<and>
   knowledge (add_sentence
      \<lparr>rows = 2, cols = 4, moves_made = {(1, 3), (1, 2), (0, 2)}, mines = {(0, 3)},
        safes = {(1, 1), (0, 1), (1, 3), (1, 2), (0, 2)}, knowledge = []\<rparr> (0, 1) 1)
     = [\<lparr>cells = {(0, 0), (1, 0)}, count = 1\<rparr>] \<and>
   {(0, 0), (1, 0)} \<noteq> {(0, 0), (1, 0), (1::int, 1::int)} \<and>
   csp_get_action \<lparr>shuffle = (\<lambda>xs. xs), choice = hd\<rparr>
      (\<lambda>p. if p = (0, 0) then 1 else - 2) (init_agent 1 4)
     = Some (\<lparr>rows = 1, cols = 4, moves_made = {(0, 0)}, mines = {(0, 1)},
               safes = {(0, 0)}, knowledge = []\<rparr>,
             Some (0, 2, 0)) \<and>
   unrevealed_unflagged (\<lambda>p. if p \<in> {(0, 0), (0, 2)} then 1 else - 2)
      \<lparr>rows = 1, cols = 4, moves_made = {(0, 0)}, mines = {(0, 1)},
        safes = {(0, 0)}, knowledge = []\<rparr> (0, 2)
     = {(0, 1), (0, 3)} \<and>
   flagged_neighbours (\<lambda>p. if p \<in> {(0, 0), (0, 2)} then 1 else - 2)
      \<lparr>rows = 1, cols = 4, moves_made = {(0, 0)}, mines = {(0, 1)},
        safes = {(0, 0)}, knowledge = []\<rparr> (0, 2)
     = {} \<and>
   knowledge (add_sentence
      \<lparr>rows = 1, cols = 4, moves_made = {(0, 0)}, mines = {(0, 1)},
        safes = {(0, 0)}, knowledge = []\<rparr> (0, 2) 1)
     = [\<lparr>cells = {(0, 3)}, count = 0\<rparr>] \<and>
   \<lparr>cells = {(0, 3)}, count = 0\<rparr> \<noteq> \<lparr>cells = {(0, 1), (0, 3)}, count = 1 - int (card ({} :: cell set))\<rparr>"
proof (intro conjI)
  show "csp_get_action \<lparr>shuffle = (\<lambda>xs. xs), choice = hd\<rparr>
      (\<lambda>p. if p \<in> {(0, 2), (1, 2), (1, 3)} then 1 else - 2) (init_agent 2 4)
     = Some (\<lparr>rows = 2, cols = 4, moves_made = {(1, 3), (1, 2), (0, 2)}, mines = {(0, 3)},
               safes = {(1, 1), (0, 1), (1, 3), (1, 2), (0, 2)}, knowledge = []\<rparr>,
             Some (0, 1, 0))"
    by code_simp
  show "unrevealed_unflagged (\<lambda>p. if p \<in> {(0, 1), (0, 2), (1, 2), (1, 3)} then 1 else - 2)
      \<lparr>rows = 2, cols = 4, moves_made = {(1, 3), (1, 2), (0, 2)}, mines = {(0, 3)},
        safes = {(1, 1), (0, 1), (1, 3), (1, 2), (0, 2)}, knowledge = []\<rparr> (0, 1)
     = {(0, 0), (1, 0), (1, 1)}"
    by code_simp
  show "flagged_neighbours (\<lambda>p. if p \<in> {(0, 1), (0, 2), (1, 2), (1, 3)} then 1 else - 2)
      \<lparr>rows = 2, cols = 4, moves_made = {(1, 3), (1, 2), (0, 2)}, mines = {(0, 3)},
        safes = {(1, 1), (0, 1), (1, 3), (1, 2), (0, 2)}, knowledge = []\<rparr> (0, 1)
     = {}"
    by code_simp
  show "knowledge (add_sentence
      \<lparr>rows = 2, cols = 4, moves_made = {(1, 3), (1, 2), (0, 2)}, mines = {(0, 3)},
        safes = {(1, 1), (0, 1), (1, 3), (1, 2), (0, 2)}, knowledge = []\<rparr> (0, 1) 1)
     = [\<lparr>cells = {(0, 0), (1, 0)}, count = 1\<rparr>]"
    by code_simp
  show "{(0, 0), (1, 0)} \<noteq> {(0, 0), (1, 0), (1::int, 1::int)}"
    by code_simp
  show "csp_get_action \<lparr>shuffle = (\<lambda>xs. xs), choice = hd\<rparr>
      (\<lambda>p. if p = (0, 0) then 1 else - 2) (init_agent 1 4)
     = Some (\<lparr>rows = 1, cols = 4, moves_made = {(0, 0)}, mines = {(0, 1)},
               safes = {(0, 0)}, knowledge = []\<rparr>,
             Some (0, 2, 0))"
    by code_simp
  show "unrevealed_unflagged (\<lambda>p. if p \<in> {(0, 0), (0, 2)} then 1 else - 2)
      \<lparr>rows = 1, cols = 4, moves_made = {(0, 0)}, mines = {(0, 1)},
        safes = {(0, 0)}, knowledge = []\<rparr> (0, 2)
     = {(0, 1), (0, 3)}"
    by code_simp
  show "flagged_neighbours (\<lambda>p. if p \<in> {(0, 0), (0, 2)} then 1 else - 2)
      \<lparr>rows = 1, cols = 4, moves_made = {(0, 0)}, mines = {(0, 1)},
        safes = {(0, 0)}, knowledge = []\<rparr> (0, 2)
     = {}"
    by code_simp
  show "knowledge (add_sentence
      \<lparr>rows = 1, cols = 4, moves_made = {(0, 0)}, mines = {(0, 1)},
        safes = {(0, 0)}, knowledge = []\<rparr> (0, 2) 1)
     = [\<lparr>cells = {(0, 3)}, count = 0\<rparr>]"
    by code_simp
  show "\<lparr>cells = {(0, 3)}, count = 0\<rparr> \<noteq> \<lparr>cells = {(0, 1), (0, 3)}, count = 1 - int (card ({} :: cell set))\<rparr>"
    by simp
qed

section \<open>The Sentence invariant under the mark operations\<close>






section \<open>Subset inference\<close>

lemma in_subset_step:
  "x \<in> set (subset_step K s1 s2 new) \<longleftrightarrow>
     x \<in> set new \<or>
     (s1 \<noteq> s2 \<and> cells s1 \<subseteq> cells s2 \<and> card (cells s2 - cells s1) > 0 \<and>
      x = diff_sentence s1 s2 \<and> x \<notin> set K)"
  by (auto simp: subset_step_def diff_sentence_def)

lemma distinct_subset_step: "distinct new \<Longrightarrow> distinct (subset_step K s1 s2 new)"
  by (simp add: subset_step_def)

lemma in_fold_inner:
  "x \<in> set (fold (\<lambda>s2 new'. subset_step K s1 s2 new') L new) \<longleftrightarrow>
     x \<in> set new \<or>
     (\<exists>s2\<in>set L. s1 \<noteq> s2 \<and> cells s1 \<subseteq> cells s2 \<and> card (cells s2 - cells s1) > 0 \<and>
        x = diff_sentence s1 s2 \<and> x \<notin> set K)"
proof (induction L arbitrary: new)
  case Nil
  then show ?case by simp
next
  case (Cons s2 L)
  show ?case
    by (simp add: Cons.IH in_subset_step)
qed

lemma distinct_fold_inner:
  "distinct new \<Longrightarrow> distinct (fold (\<lambda>s2 new'. subset_step K s1 s2 new') L new)"
  by (induction L arbitrary: new) (simp_all add: distinct_subset_step)

lemma in_fold_outer:
  "x \<in> set (fold (\<lambda>s1 new. fold (\<lambda>s2 new'. subset_step K s1 s2 new') L new) L1 acc) \<longleftrightarrow>
     x \<in> set acc \<or>
     (\<exists>s1\<in>set L1. \<exists>s2\<in>set L. s1 \<noteq> s2 \<and> cells s1 \<subseteq> cells s2 \<and>
        card (cells s2 - cells s1) > 0 \<and> x = diff_sentence s1 s2 \<and> x \<notin> set K)"
proof (induction L1 arbitrary: acc)
  case Nil
  then show ?case by simp
next
  case (Cons s1 L1)
  show ?case
    by (simp add: Cons.IH in_fold_inner)
qed

lemma distinct_fold_outer:
  "distinct acc \<Longrightarrow>
   distinct (fold (\<lambda>s1 new. fold (\<lambda>s2 new'. subset_step K s1 s2 new') L new) L1 acc)"
  by (induction L1 arbitrary: acc) (simp_all add: distinct_fold_inner)

lemma in_new_sentences:
  "x \<in> set (new_sentences K) \<longleftrightarrow>
     x \<notin> set K \<and>
     (\<exists>s1\<in>set K. \<exists>s2\<in>set K. s1 \<noteq> s2 \<and> cells s1 \<subseteq> cells s2 \<and>
        card (cells s2 - cells s1) > 0 \<and> x = diff_sentence s1 s2)"
  unfolding new_sentences_def in_fold_outer by auto

lemma distinct_new_sentences: "distinct (new_sentences K)"
  unfolding new_sentences_def by (rule distinct_fold_outer) simp

lemma count_list_distinct: "distinct xs \<Longrightarrow> x \<in> set xs \<Longrightarrow> count_list xs x = 1"
  by (induction xs) auto

lemma knowledge_infer_pass:
  "knowledge (fst (infer_pass a)) =
     knowledge (remove_empty (mark_all a)) @ new_sentences (knowledge (remove_empty (mark_all a)))"
  by (simp add: infer_pass_def Let_def subset_inference_def)

lemma changes_infer_pass:
  "snd (infer_pass a) \<longleftrightarrow>
     safes_to_mark (knowledge a) \<noteq> {} \<or> mines_to_mark (knowledge a) \<noteq> {} \<or>
     new_sentences (knowledge (remove_empty (mark_all a))) \<noteq> []"
  by (auto simp: infer_pass_def Let_def)

lemma scenario_pass1:
  assumes "cA \<noteq> cB" "cA \<noteq> cC" "cB \<noteq> cC"
  shows "infer_pass \<lparr>rows = h, cols = w, moves_made = mm, mines = ms, safes = sf,
            knowledge = [\<lparr>cells = {cA, cB, cC}, count = 1\<rparr>, \<lparr>cells = {cA, cB}, count = 1\<rparr>]\<rparr>
       = (\<lparr>rows = h, cols = w, moves_made = mm, mines = ms, safes = sf,
            knowledge = [\<lparr>cells = {cA, cB, cC}, count = 1\<rparr>, \<lparr>cells = {cA, cB}, count = 1\<rparr>,
               \<lparr>cells = {cC}, count = 0\<rparr>]\<rparr>, True)"
  using assms
  by (simp add: infer_pass_def safes_to_mark_def mines_to_mark_def known_safes_def
      known_mines_def mark_all_def remove_empty_def subset_inference_def new_sentences_def
      subset_step_def diff_sentence_def Let_def) auto

lemma scenario_pass2:
  assumes "cA \<noteq> cB" "cA \<noteq> cC" "cB \<noteq> cC" "cC \<notin> sf"
  shows "infer_pass \<lparr>rows = h, cols = w, moves_made = mm, mines = ms, safes = sf,
            knowledge = [\<lparr>cells = {cA, cB, cC}, count = 1\<rparr>, \<lparr>cells = {cA, cB}, count = 1\<rparr>,
               \<lparr>cells = {cC}, count = 0\<rparr>]\<rparr>
       = (\<lparr>rows = h, cols = w, moves_made = mm, mines = ms, safes = insert cC sf,
            knowledge = [\<lparr>cells = {cA, cB}, count = 1\<rparr>, \<lparr>cells = {cA, cB}, count = 1\<rparr>]\<rparr>, True)"
  using assms
  by (simp add: infer_pass_def safes_to_mark_def mines_to_mark_def known_safes_def
      known_mines_def mark_all_def remove_empty_def subset_inference_def new_sentences_def
      subset_step_def diff_sentence_def Let_def mark_safe_def sentence_mark_safe_def) auto

lemma scenario_pass3:
  assumes "cA \<noteq> cB"
  shows "infer_pass \<lparr>rows = h, cols = w, moves_made = mm, mines = ms, safes = sf,
            knowledge = [\<lparr>cells = {cA, cB}, count = 1\<rparr>, \<lparr>cells = {cA, cB}, count = 1\<rparr>]\<rparr>
       = (\<lparr>rows = h, cols = w, moves_made = mm, mines = ms, safes = sf,
            knowledge = [\<lparr>cells = {cA, cB}, count = 1\<rparr>, \<lparr>cells = {cA, cB}, count = 1\<rparr>]\<rparr>, False)"
  using assms
  by (simp add: infer_pass_def safes_to_mark_def mines_to_mark_def known_safes_def
      known_mines_def mark_all_def remove_empty_def subset_inference_def new_sentences_def
      subset_step_def diff_sentence_def Let_def)

lemma scenario_infer:
  assumes "cA \<noteq> cB" "cA \<noteq> cC" "cB \<noteq> cC" "cC \<notin> sf"
  shows "infer_knowledge \<lparr>rows = h, cols = w, moves_made = mm, mines = ms, safes = sf,
            knowledge = [\<lparr>cells = {cA, cB, cC}, count = 1\<rparr>, \<lparr>cells = {cA, cB}, count = 1\<rparr>]\<rparr>
       = Some \<lparr>rows = h, cols = w, moves_made = mm, mines = ms, safes = insert cC sf,
            knowledge = [\<lparr>cells = {cA, cB}, count = 1\<rparr>, \<lparr>cells = {cA, cB}, count = 1\<rparr>]\<rparr>"
  unfolding infer_knowledge_def
  apply (subst infer_loop.simps)
  apply (simp only: scenario_pass1[OF assms(1-3)] prod.case if_True)
  apply (subst infer_loop.simps)
  apply (simp only: scenario_pass2[OF assms] prod.case if_True)
  apply (subst infer_loop.simps)
  apply (simp only: scenario_pass3[OF assms(1)] prod.case if_False)
  done

text \<open>
  C1. Step C of a pass works on the Sentences left by steps A and B. For every ordered
  pair of unequal Sentences of that list with the cells of the first among the cells of
  the second and a non-empty difference, the Sentence with the difference of the cell
  sets and the difference of the counts is in the knowledge after the pass; when it was
  not there before, the pass reports a change and the Sentence occurs exactly once.
  Scenario C: from \<open>{A, B, C} = 1\<close> and \<open>{A, B} = 1\<close> the first pass appends \<open>{C} = 0\<close>,
  and the loop ends with \<open>C\<close> among the safe cells.
\<close>

theorem subset_resolution:
  "(s1 \<in> set (knowledge (remove_empty (mark_all a))) \<and>
    s2 \<in> set (knowledge (remove_empty (mark_all a))) \<and>
    s1 \<noteq> s2 \<and> cells s1 \<subseteq> cells s2 \<and> finite (cells s2) \<and> cells s2 - cells s1 \<noteq> {} \<longrightarrow>
      \<lparr>cells = cells s2 - cells s1, count = count s2 - count s1\<rparr>
         \<in> set (knowledge (fst (infer_pass a))) \<and>
      (\<lparr>cells = cells s2 - cells s1, count = count s2 - count s1\<rparr>
         \<notin> set (knowledge (remove_empty (mark_all a))) \<longrightarrow>
       snd (infer_pass a) \<and>
       count_list (knowledge (fst (infer_pass a)))
         \<lparr>cells = cells s2 - cells s1, count = count s2 - count s1\<rparr> = 1)) \<and>
   (cA \<noteq> cB \<and> cA \<noteq> cC \<and> cB \<noteq> cC \<and> cC \<notin> sf \<longrightarrow>
      knowledge (fst (infer_pass \<lparr>rows = h, cols = w, moves_made = mm, mines = ms, safes = sf,
            knowledge = [\<lparr>cells = {cA, cB, cC}, count = 1\<rparr>, \<lparr>cells = {cA, cB}, count = 1\<rparr>]\<rparr>))
        = [\<lparr>cells = {cA, cB, cC}, count = 1\<rparr>, \<lparr>cells = {cA, cB}, count = 1\<rparr>,
           \<lparr>cells = {cC}, count = 0\<rparr>] \<and>
      infer_knowledge \<lparr>rows = h, cols = w, moves_made = mm, mines = ms, safes = sf,
            knowledge = [\<lparr>cells = {cA, cB, cC}, count = 1\<rparr>, \<lparr>cells = {cA, cB}, count = 1\<rparr>]\<rparr>
        = Some \<lparr>rows = h, cols = w, moves_made = mm, mines = ms, safes = insert cC sf,
            knowledge = [\<lparr>cells = {cA, cB}, count = 1\<rparr>, \<lparr>cells = {cA, cB}, count = 1\<rparr>]\<rparr>)"
proof (intro conjI impI; (elim conjE)?)
  let ?K = "knowledge (remove_empty (mark_all a))"
  let ?d = "\<lparr>cells = cells s2 - cells s1, count = count s2 - count s1\<rparr>"
  assume h: "s1 \<in> set ?K" "s2 \<in> set ?K" "s1 \<noteq> s2" "cells s1 \<subseteq> cells s2"
    "finite (cells s2)" "cells s2 - cells s1 \<noteq> {}"
  have pos: "card (cells s2 - cells s1) > 0"
    using h(5,6) by (simp add: card_gt_0_iff)
  have new: "?d \<notin> set ?K \<Longrightarrow> ?d \<in> set (new_sentences ?K)"
    using h(1-4) pos unfolding in_new_sentences diff_sentence_def by blast
  show "?d \<in> set (knowledge (fst (infer_pass a)))"
    using new by (auto simp: knowledge_infer_pass)
  {
    assume n: "?d \<notin> set ?K"
    then have "new_sentences ?K \<noteq> []"
      using new by auto
    then show "snd (infer_pass a)"
      by (simp add: changes_infer_pass)
    show "count_list (knowledge (fst (infer_pass a))) ?d = 1"
      using n new count_list_distinct[OF distinct_new_sentences, of ?d ?K]
      by (simp add: knowledge_infer_pass)
  }
next
  assume "cA \<noteq> cB" "cA \<noteq> cC" "cB \<noteq> cC" "cC \<notin> sf"
  then show "knowledge (fst (infer_pass \<lparr>rows = h, cols = w, moves_made = mm, mines = ms, safes = sf,
            knowledge = [\<lparr>cells = {cA, cB, cC}, count = 1\<rparr>, \<lparr>cells = {cA, cB}, count = 1\<rparr>]\<rparr>))
        = [\<lparr>cells = {cA, cB, cC}, count = 1\<rparr>, \<lparr>cells = {cA, cB}, count = 1\<rparr>,
           \<lparr>cells = {cC}, count = 0\<rparr>]"
    by (simp add: scenario_pass1)
next
  assume "cA \<noteq> cB" "cA \<noteq> cC" "cB \<noteq> cC" "cC \<notin> sf"
  then show "infer_knowledge \<lparr>rows = h, cols = w, moves_made = mm, mines = ms, safes = sf,
            knowledge = [\<lparr>cells = {cA, cB, cC}, count = 1\<rparr>, \<lparr>cells = {cA, cB}, count = 1\<rparr>]\<rparr>
        = Some \<lparr>rows = h, cols = w, moves_made = mm, mines = ms, safes = insert cC sf,
            knowledge = [\<lparr>cells = {cA, cB}, count = 1\<rparr>, \<lparr>cells = {cA, cB}, count = 1\<rparr>]\<rparr>"
    by (rule scenario_infer)
qed

theorem subset_resolution_witness:
  "\<lparr>cells = {(0, 2)}, count = 0\<rparr> \<in> set (knowledge (fst (infer_pass
      ((init_agent 1 3)\<lparr>knowledge := [\<lparr>cells = {(0, 0), (0, 1), (0, 2)}, count = 1\<rparr>,
                                        \<lparr>cells = {(0, 0), (0, 1)}, count = 1\<rparr>]\<rparr>)))) \<and>
   snd (infer_pass
      ((init_agent 1 3)\<lparr>knowledge := [\<lparr>cells = {(0, 0), (0, 1), (0, 2)}, count = 1\<rparr>,
                                        \<lparr>cells = {(0, 0), (0, 1)}, count = 1\<rparr>]\<rparr>)) \<and>
   infer_knowledge
      ((init_agent 1 3)\<lparr>knowledge := [\<lparr>cells = {(0, 0), (0, 1), (0, 2)}, count = 1\<rparr>,
                                        \<lparr>cells = {(0, 0), (0, 1)}, count = 1\<rparr>]\<rparr>)
     = Some ((init_agent 1 3)\<lparr>safes := {(0, 2)},
               knowledge := [\<lparr>cells = {(0, 0), (0, 1)}, count = 1\<rparr>,
                             \<lparr>cells = {(0, 0), (0, 1)}, count = 1\<rparr>]\<rparr>)"
proof -
  have ne: "{(0, 0), (0, 1)} \<noteq> {(0, 0), (0, 1), (0::int, 2::int)}"
    by code_simp
  show ?thesis
  using ne subset_resolution
    [where a = "(init_agent 1 3)\<lparr>knowledge := [\<lparr>cells = {(0, 0), (0, 1), (0, 2)}, count = 1\<rparr>,
                                                 \<lparr>cells = {(0, 0), (0, 1)}, count = 1\<rparr>]\<rparr>"
       and ?s1.0 = "\<lparr>cells = {(0, 0), (0, 1)}, count = 1\<rparr>"
       and ?s2.0 = "\<lparr>cells = {(0, 0), (0, 1), (0, 2)}, count = 1\<rparr>"
       and cA = "(0, 0)" and cB = "(0, 1)" and cC = "(0, 2)" and sf = "{}"
       and h = 1 and w = 3 and mm = "{}" and ms = "{}"]
  by (simp add: init_agent_def mark_all_def remove_empty_def safes_to_mark_def
      mines_to_mark_def known_safes_def known_mines_def)
qed

section \<open>The exact estimator on a single two-cell Sentence\<close>

text \<open>
  C8. For the knowledge base made of the single Sentence \<open>{(0,0), (0,1)} = 1\<close> the
  frontier is one component with the two cells; the enumeration finds 2 valid
  assignments, each cell is a mine in one of them, the quotient computed for each cell is
  1/2, and the estimator returns the first cell of the list with probability 1/2.
\<close>

theorem exact_two_cells:
  "get_components [\<lparr>cells = {(0, 0), (0, 1)}, count = 1\<rparr>] [(0, 0), (0, 1)]
     = Inr [{(0, 0), (0, 1)}] \<and>
   fst (count_worlds [\<lparr>cells = {(0, 0), (0, 1)}, count = 1\<rparr>] [(0, 0), (0, 1)]) = 2 \<and>
   snd (count_worlds [\<lparr>cells = {(0, 0), (0, 1)}, count = 1\<rparr>] [(0, 0), (0, 1)]) (0, 0) = 1 \<and>
   snd (count_worlds [\<lparr>cells = {(0, 0), (0, 1)}, count = 1\<rparr>] [(0, 0), (0, 1)]) (0, 1) = 1 \<and>
   (of_nat (snd (count_worlds [\<lparr>cells = {(0, 0), (0, 1)}, count = 1\<rparr>] [(0, 0), (0, 1)]) (0, 0))
      / of_nat (fst (count_worlds [\<lparr>cells = {(0, 0), (0, 1)}, count = 1\<rparr>] [(0, 0), (0, 1)])) :: rat)
     = 1 / 2 \<and>
   (of_nat (snd (count_worlds [\<lparr>cells = {(0, 0), (0, 1)}, count = 1\<rparr>] [(0, 0), (0, 1)]) (0, 1))
      / of_nat (fst (count_worlds [\<lparr>cells = {(0, 0), (0, 1)}, count = 1\<rparr>] [(0, 0), (0, 1)])) :: rat)
     = 1 / 2 \<and>
   solve_component_exact [\<lparr>cells = {(0, 0), (0, 1)}, count = 1\<rparr>] [(0, 0), (0, 1)]
     = (Some (0, 0), 1 / 2) \<and>
   solve_component_exact [\<lparr>cells = {(0, 0), (0, 1)}, count = 1\<rparr>] [(0, 1), (0, 0)]
     = (Some (0, 1), 1 / 2)"
proof (intro conjI)
  show "get_components [\<lparr>cells = {(0, 0), (0, 1)}, count = 1\<rparr>] [(0, 0), (0, 1)]
     = Inr [{(0, 0), (0, 1)}]"
    by code_simp
  show w: "fst (count_worlds [\<lparr>cells = {(0, 0), (0, 1)}, count = 1\<rparr>] [(0, 0), (0, 1)]) = 2"
    by code_simp
  show m0: "snd (count_worlds [\<lparr>cells = {(0, 0), (0, 1)}, count = 1\<rparr>] [(0, 0), (0, 1)]) (0, 0) = 1"
    by code_simp
  show m1: "snd (count_worlds [\<lparr>cells = {(0, 0), (0, 1)}, count = 1\<rparr>] [(0, 0), (0, 1)]) (0, 1) = 1"
    by code_simp
  show "(of_nat (snd (count_worlds [\<lparr>cells = {(0, 0), (0, 1)}, count = 1\<rparr>] [(0, 0), (0, 1)]) (0, 0))
      / of_nat (fst (count_worlds [\<lparr>cells = {(0, 0), (0, 1)}, count = 1\<rparr>] [(0, 0), (0, 1)])) :: rat)
     = 1 / 2"
    unfolding w m0 by simp
  show "(of_nat (snd (count_worlds [\<lparr>cells = {(0, 0), (0, 1)}, count = 1\<rparr>] [(0, 0), (0, 1)]) (0, 1))
      / of_nat (fst (count_worlds [\<lparr>cells = {(0, 0), (0, 1)}, count = 1\<rparr>] [(0, 0), (0, 1)])) :: rat)
     = 1 / 2"
    unfolding w m1 by simp
  show "solve_component_exact [\<lparr>cells = {(0, 0), (0, 1)}, count = 1\<rparr>] [(0, 0), (0, 1)]
     = (Some (0, 0), 1 / 2)"
    by code_simp
  show "solve_component_exact [\<lparr>cells = {(0, 0), (0, 1)}, count = 1\<rparr>] [(0, 1), (0, 0)]
     = (Some (0, 1), 1 / 2)"
    by code_simp
qed

section \<open>The actions returned are reveal actions\<close>

lemma safe_move_reveal: "safe_move a = Some (r, c, t) \<Longrightarrow> t = 0"
  by (auto simp: safe_move_def split: list.splits)

lemma csp_choose_reveal: "csp_choose g a = Some (r, c, t) \<Longrightarrow> t = 0"
  by (auto simp: csp_choose_def split: option.splits if_splits dest: safe_move_reveal)

lemma get_smart_guess_reveal: "get_smart_guess g a = Some (r, c, t) \<Longrightarrow> t = 0"
  by (auto simp: get_smart_guess_def Let_def split: list.splits if_splits)

lemma probability_choose_reveal:
  "probability_choose exact approx g a = Inr (Some (r, c, t)) \<Longrightarrow> t = 0"
  by (auto simp: probability_choose_def
      split: option.splits if_splits sum.splits
      dest: safe_move_reveal get_smart_guess_reveal)

text \<open>
  C10. Whatever the observation, the random source and the result of the approximate
  estimator, an action returned by \<open>get_action\<close> of the CSP, the hybrid or the MCMC agent
  has action type 0 (reveal).
\<close>

theorem actions_are_reveals:
  "(csp_get_action g obs a = Some (b, Some (r, c, t)) \<longrightarrow> t = 0) \<and>
   (hybrid_get_action mc g obs a = Some (b, Inr (Some (r, c, t))) \<longrightarrow> t = 0) \<and>
   (mcmc_get_action sa g obs a = Some (b, Inr (Some (r, c, t))) \<longrightarrow> t = 0)"
  by (auto simp: csp_get_action_def hybrid_get_action_def mcmc_get_action_def
      hybrid_choose_def mcmc_choose_def split: option.splits
      dest: csp_choose_reveal probability_choose_reveal)

theorem actions_are_reveals_witness:
  "csp_get_action \<lparr>shuffle = (\<lambda>xs. xs), choice = hd\<rparr>
      (\<lambda>p. if p = (0, 0) then 2 else - 2) (init_agent 1 3)
     = Some (\<lparr>rows = 1, cols = 3, moves_made = {(0, 0)}, mines = {}, safes = {(0, 0)},
               knowledge = [\<lparr>cells = {(0, 1)}, count = 2\<rparr>]\<rparr>, Some (0, 1, 0)) \<and>
   hybrid_get_action (\<lambda>xs. (None, 1)) \<lparr>shuffle = (\<lambda>xs. xs), choice = hd\<rparr>
      (\<lambda>p. if p = (0, 0) then 2 else - 2) (init_agent 1 3)
     = Some (\<lparr>rows = 1, cols = 3, moves_made = {(0, 0)}, mines = {}, safes = {(0, 0)},
               knowledge = [\<lparr>cells = {(0, 1)}, count = 2\<rparr>]\<rparr>, Inr (Some (0, 2, 0))) \<and>
   mcmc_get_action (\<lambda>xs. (None, 1)) \<lparr>shuffle = (\<lambda>xs. xs), choice = hd\<rparr>
      (\<lambda>p. if p = (0, 0) then 2 else - 2) (init_agent 1 3)
     = Some (\<lparr>rows = 1, cols = 3, moves_made = {(0, 0)}, mines = {}, safes = {(0, 0)},
               knowledge = [\<lparr>cells = {(0, 1)}, count = 2\<rparr>]\<rparr>, Inr (Some (0, 2, 0))) \<and>
   (0::int) = 0"
proof -
  have c: "csp_get_action \<lparr>shuffle = (\<lambda>xs. xs), choice = hd\<rparr>
      (\<lambda>p. if p = (0, 0) then 2 else - 2) (init_agent 1 3)
     = Some (\<lparr>rows = 1, cols = 3, moves_made = {(0, 0)}, mines = {}, safes = {(0, 0)},
               knowledge = [\<lparr>cells = {(0, 1)}, count = 2\<rparr>]\<rparr>, Some (0, 1, 0))"
    by code_simp
  have h: "hybrid_get_action (\<lambda>xs. (None, 1)) \<lparr>shuffle = (\<lambda>xs. xs), choice = hd\<rparr>
      (\<lambda>p. if p = (0, 0) then 2 else - 2) (init_agent 1 3)
     = Some (\<lparr>rows = 1, cols = 3, moves_made = {(0, 0)}, mines = {}, safes = {(0, 0)},
               knowledge = [\<lparr>cells = {(0, 1)}, count = 2\<rparr>]\<rparr>, Inr (Some (0, 2, 0)))"
    by code_simp
  have m: "mcmc_get_action (\<lambda>xs. (None, 1)) \<lparr>shuffle = (\<lambda>xs. xs), choice = hd\<rparr>
      (\<lambda>p. if p = (0, 0) then 2 else - 2) (init_agent 1 3)
     = Some (\<lparr>rows = 1, cols = 3, moves_made = {(0, 0)}, mines = {}, safes = {(0, 0)},
               knowledge = [\<lparr>cells = {(0, 1)}, count = 2\<rparr>]\<rparr>, Inr (Some (0, 2, 0)))"
    by code_simp
  from c h m
    actions_are_reveals
      [where g = "\<lparr>shuffle = (\<lambda>xs. xs), choice = hd\<rparr>"
         and obs = "\<lambda>p. if p = (0, 0) then 2 else - 2" and a = "init_agent 1 3"
         and mc = "\<lambda>xs. (None, 1)" and sa = "\<lambda>xs. (None, 1)"
         and b = "\<lparr>rows = 1, cols = 3, moves_made = {(0, 0)}, mines = {}, safes = {(0, 0)},
               knowledge = [\<lparr>cells = {(0, 1)}, count = 2\<rparr>]\<rparr>"
         and r = 0 and c = 2 and t = 0]
  show ?thesis
    by simp
qed

section \<open>The choice of the estimator looks at the number of cells only\<close>

lemma estimate_component_cong:
  assumes "\<forall>xs. length xs \<le> 18 \<longrightarrow> exact xs = exact' xs"
    and "\<forall>xs. 18 < length xs \<longrightarrow> approx xs = approx' xs"
  shows "estimate_component exact approx component = estimate_component exact' approx' component"
  using assms by (simp add: estimate_component_def)

lemma best_over_cong:
  assumes "\<forall>xs. length xs \<le> 18 \<longrightarrow> exact xs = exact' xs"
    and "\<forall>xs. 18 < length xs \<longrightarrow> approx xs = approx' xs"
  shows "best_over exact approx comps best = best_over exact' approx' comps best"
proof (induction comps arbitrary: best)
  case Nil
  show ?case by simp
next
  case (Cons component comps)
  show ?case
    by (simp add: estimate_component_cong[OF assms, of component] Cons.IH split: prod.splits)
qed

lemma probability_choose_cong:
  assumes "\<forall>xs. length xs \<le> 18 \<longrightarrow> exact xs = exact' xs"
    and "\<forall>xs. 18 < length xs \<longrightarrow> approx xs = approx' xs"
  shows "probability_choose exact approx g a = probability_choose exact' approx' g a"
  by (simp add: probability_choose_def best_over_cong[OF assms] split: option.splits sum.splits)

section \<open>A component without valid assignment\<close>

lemma solve_component_exact_unsat:
  "fst (count_worlds K xs) = 0 \<Longrightarrow> solve_component_exact K xs = (None, 1)"
  by (cases "count_worlds K xs") (simp add: solve_component_exact_def)

lemma best_over_skip:
  assumes "card component \<le> 18"
    and "fst (count_worlds K (sorted_list_of_set component)) = 0"
  shows "best_over (solve_component_exact K) approx (component # comps) best
           = best_over (solve_component_exact K) approx comps best"
  using assms by (simp add: estimate_component_def solve_component_exact_unsat)

lemma best_over_all_unsat:
  assumes "\<forall>c\<in>set comps. card c \<le> 18 \<and> fst (count_worlds K (sorted_list_of_set c)) = 0"
  shows "best_over (solve_component_exact K) approx comps best = best"
  using assms
proof (induction comps)
  case Nil
  show ?case by simp
next
  case (Cons c comps)
  then show ?case
    by (simp add: best_over_skip del: best_over.simps)
qed

lemma probability_choose_all_unsat:
  assumes "safe_move a = None" "fringe_list a \<noteq> []"
    and "get_components (knowledge a) (fringe_list a) = Inr comps"
    and "\<forall>c\<in>set comps. card c \<le> 18 \<and> fst (count_worlds (knowledge a) (sorted_list_of_set c)) = 0"
  shows "probability_choose (solve_component_exact (knowledge a)) approx g a
           = Inr (get_smart_guess g a)"
  using assms(1-3) by (simp add: probability_choose_def best_over_all_unsat[OF assms(4)])

section \<open>The neighbors dictionary\<close>

lemma keys_add_neighbor: "map fst (add_neighbor c1 c2 nbs) = map fst nbs"
  by (induction nbs) (auto simp: add_neighbor_def)

lemma map_of_add_neighbor:
  "map_of (add_neighbor c1 c2 nbs) k =
     (if k = c1 then map_option (insert c2) (map_of nbs k) else map_of nbs k)"
  by (induction nbs) (auto simp: add_neighbor_def)

lemma keys_link: "map fst (link p nbs) = map fst nbs"
  by (cases p) (simp add: link_def keys_add_neighbor)

lemma map_of_None_keys: "map_of nbs k = None \<longleftrightarrow> k \<notin> set (map fst nbs)"
  by (simp add: map_of_eq_None_iff)

lemma in_nbr_link:
  "x \<in> nbr (link (c1, c2) nbs) k \<longleftrightarrow>
     x \<in> nbr nbs k \<or>
     (c1 \<in> set (map fst nbs) \<and> c2 \<in> set (map fst nbs) \<and>
      ((k = c1 \<and> x = c2) \<or> (k = c2 \<and> x = c1)))"
proof (cases "map_of nbs c1 \<noteq> None \<and> map_of nbs c2 \<noteq> None")
  case True
  then obtain v1 v2 where v: "map_of nbs c1 = Some v1" "map_of nbs c2 = Some v2"
    by auto
  have k: "c1 \<in> set (map fst nbs)" "c2 \<in> set (map fst nbs)"
    using True by (simp_all add: map_of_None_keys)
  show ?thesis
    using v k
    by (cases "map_of nbs k")
      (auto simp: nbr_def link_def map_of_add_neighbor split: option.splits)
next
  case False
  then have "\<not> (c1 \<in> set (map fst nbs) \<and> c2 \<in> set (map fst nbs))"
    by (simp add: map_of_None_keys)
  then show ?thesis
    using False by (auto simp: link_def)
qed

lemma keys_fold_link: "map fst (fold link ps nbs) = map fst nbs"
  by (induction ps arbitrary: nbs) (simp_all add: keys_link)

lemma in_nbr_fold_link:
  "x \<in> nbr (fold link ps nbs) k \<longleftrightarrow>
     x \<in> nbr nbs k \<or>
     (k \<in> set (map fst nbs) \<and> x \<in> set (map fst nbs) \<and>
      ((k, x) \<in> set ps \<or> (x, k) \<in> set ps))"
proof (induction ps arbitrary: nbs)
  case Nil
  show ?case by simp
next
  case (Cons p ps)
  obtain c1 c2 where p: "p = (c1, c2)"
    by (cases p)
  show ?case
    unfolding p fold_simps Cons.IH keys_link in_nbr_link
    by auto
qed

lemma pairs_subset: "(x, y) \<in> set (pairs xs) \<Longrightarrow> x \<in> set xs \<and> y \<in> set xs"
  by (induction xs) auto

lemma pairs_distinct: "distinct xs \<Longrightarrow> (x, y) \<in> set (pairs xs) \<Longrightarrow> x \<noteq> y"
  by (induction xs) (auto dest: pairs_subset)

lemma pairs_cover:
  "x \<in> set xs \<Longrightarrow> y \<in> set xs \<Longrightarrow> x \<noteq> y \<Longrightarrow>
   (x, y) \<in> set (pairs xs) \<or> (y, x) \<in> set (pairs xs)"
  by (induction xs) auto

lemma pairs_of_cells:
  "(k, x) \<in> set (pairs (sorted_list_of_set A)) \<or> (x, k) \<in> set (pairs (sorted_list_of_set A))
     \<longleftrightarrow> finite A \<and> k \<in> A \<and> x \<in> A \<and> k \<noteq> x"
proof (cases "finite A")
  case True
  then have s: "set (sorted_list_of_set A) = A" and d: "distinct (sorted_list_of_set A)"
    by simp_all
  show ?thesis
    using True pairs_subset[of k x "sorted_list_of_set A"]
      pairs_subset[of x k "sorted_list_of_set A"]
      pairs_distinct[OF d, of k x] pairs_distinct[OF d, of x k]
      pairs_cover[of k "sorted_list_of_set A" x]
    unfolding s by blast
next
  case False
  then show ?thesis by simp
qed

lemma keys_fold_sentences:
  "map fst (fold (\<lambda>s nbs. fold link (pairs (sorted_list_of_set (cells s))) nbs) K nbs)
     = map fst nbs"
  by (induction K arbitrary: nbs) (simp_all add: keys_fold_link)

lemma in_nbr_fold_sentences:
  "x \<in> nbr (fold (\<lambda>s nbs. fold link (pairs (sorted_list_of_set (cells s))) nbs) K nbs) k \<longleftrightarrow>
     x \<in> nbr nbs k \<or>
     (k \<in> set (map fst nbs) \<and> x \<in> set (map fst nbs) \<and> adjacent K k x)"
proof (induction K arbitrary: nbs)
  case Nil
  show ?case by (simp add: adjacent_def)
next
  case (Cons s K)
  have a: "adjacent (s # K) k x \<longleftrightarrow>
      (finite (cells s) \<and> k \<in> cells s \<and> x \<in> cells s \<and> k \<noteq> x) \<or> adjacent K k x"
    by (auto simp: adjacent_def)
  show ?case
    unfolding fold_simps Cons.IH keys_fold_link in_nbr_fold_link pairs_of_cells a
    by blast
qed

lemma keys_build_neighbors: "set (map fst (build_neighbors K fringe)) = set fringe"
  unfolding build_neighbors_def keys_fold_sentences by (simp add: comp_def)

lemma nbr_initial: "nbr (map (\<lambda>c. (c, {})) xs) k = {}"
  by (induction xs) (auto simp: nbr_def)

lemma in_nbr_build_neighbors:
  "x \<in> nbr (build_neighbors K fringe) k \<longleftrightarrow>
     k \<in> set fringe \<and> x \<in> set fringe \<and> adjacent K k x"
  unfolding build_neighbors_def in_nbr_fold_sentences nbr_initial
  by (simp add: comp_def)

lemma map_of_build_neighbors:
  "k \<in> set fringe \<Longrightarrow> map_of (build_neighbors K fringe) k \<noteq> None"
  using keys_build_neighbors[of K fringe] by (simp only: map_of_None_keys) simp

section \<open>The traversal\<close>

lemma dfs_explores:
  assumes "\<And>k. k \<in> F \<Longrightarrow> map_of nbs k \<noteq> None"
    and "\<And>k. nbr nbs k \<subseteq> F"
    and "finite F"
    and "set stack \<subseteq> F"
    and "set stack \<subseteq> visited"
    and "component \<subseteq> visited"
    and "\<forall>c\<in>component. nbr nbs c \<subseteq> visited"
  shows "\<exists>v c'. dfs nbs stack visited component = Inr (v, c') \<and>
           component \<union> set stack \<subseteq> c' \<and> v = visited \<union> c' \<and>
           c' \<subseteq> component \<union> set stack \<union> (F - visited) \<and>
           (\<forall>c\<in>c'. nbr nbs c \<subseteq> v)"
  using assms
proof (induction nbs stack visited component rule: dfs.induct)
  case (1 nbs visited component)
  then show ?case by auto
next
  case (2 nbs cur stack visited component)
  have curF: "cur \<in> F"
    using "2.prems"(4) by simp
  then obtain ns where ns: "map_of nbs cur = Some ns"
    using "2.prems"(1)[of cur] by auto
  have nbr_cur: "nbr nbs cur = ns"
    by (simp add: nbr_def ns)
  have nsF: "ns \<subseteq> F"
    using "2.prems"(2)[of cur] nbr_cur by simp
  then have fin: "finite ns"
    using "2.prems"(3) by (rule finite_subset)
  define new where "new = filter (\<lambda>n. n \<notin> visited) (sorted_list_of_set ns)"
  have set_new: "set new = ns - visited"
    unfolding new_def using fin by auto
  have step: "dfs nbs (cur # stack) visited component
      = dfs nbs (rev new @ stack) (visited \<union> set new) (insert cur component)"
    by (simp add: ns new_def)
  have "\<exists>v c'. dfs nbs (rev new @ stack) (visited \<union> set new) (insert cur component) = Inr (v, c') \<and>
           insert cur component \<union> set (rev new @ stack) \<subseteq> c' \<and> v = (visited \<union> set new) \<union> c' \<and>
           c' \<subseteq> insert cur component \<union> set (rev new @ stack) \<union> (F - (visited \<union> set new)) \<and>
           (\<forall>c\<in>c'. nbr nbs c \<subseteq> v)"
    unfolding new_def
  proof (rule "2.IH"[OF ns])
    show "\<And>k. k \<in> F \<Longrightarrow> map_of nbs k \<noteq> None"
      by (rule "2.prems"(1))
    show "\<And>k. nbr nbs k \<subseteq> F"
      by (rule "2.prems"(2))
    show "finite F"
      by (rule "2.prems"(3))
    show "set (rev (filter (\<lambda>n. n \<notin> visited) (sorted_list_of_set ns)) @ stack) \<subseteq> F"
      using "2.prems"(4) nsF fin by auto
    show "set (rev (filter (\<lambda>n. n \<notin> visited) (sorted_list_of_set ns)) @ stack)
            \<subseteq> visited \<union> set (filter (\<lambda>n. n \<notin> visited) (sorted_list_of_set ns))"
      using "2.prems"(5) by auto
    show "insert cur component \<subseteq> visited \<union> set (filter (\<lambda>n. n \<notin> visited) (sorted_list_of_set ns))"
      using "2.prems"(5,6) by auto
    show "\<forall>c\<in>insert cur component.
            nbr nbs c \<subseteq> visited \<union> set (filter (\<lambda>n. n \<notin> visited) (sorted_list_of_set ns))"
      using "2.prems"(7) nbr_cur fin by auto
  qed
  then obtain v c' where r: "dfs nbs (rev new @ stack) (visited \<union> set new) (insert cur component) = Inr (v, c')"
    "insert cur component \<union> set (rev new @ stack) \<subseteq> c'" "v = (visited \<union> set new) \<union> c'"
    "c' \<subseteq> insert cur component \<union> set (rev new @ stack) \<union> (F - (visited \<union> set new))"
    "\<forall>c\<in>c'. nbr nbs c \<subseteq> v"
    by blast
  have a: "component \<union> set (cur # stack) \<subseteq> c'"
    using r(2) by auto
  have b: "v = visited \<union> c'"
    using r(2,3) by auto
  have c: "c' \<subseteq> component \<union> set (cur # stack) \<union> (F - visited)"
    using r(4) set_new nsF by auto
  show ?case
    unfolding step using r(1,5) a b c by blast
qed

lemma closed_partition_snoc:
  assumes cp: "closed_partition nbs F comps"
    and c'F: "c' \<subseteq> F" and ne: "c' \<noteq> {}"
    and closed: "\<And>k. k \<in> c' \<Longrightarrow> nbr nbs k \<subseteq> c'"
    and dis: "c' \<inter> \<Union> (set comps) = {}"
  shows "closed_partition nbs F (comps @ [c'])"
proof -
  have notin: "c' \<notin> set comps"
    using dis ne by auto
  have d1: "c' \<inter> d = {}" if "d \<in> set comps" for d
    using dis that by auto
  have d2: "d \<inter> c' = {}" if "d \<in> set comps" for d
    using dis that by auto
  show ?thesis
    using cp notin c'F ne closed d1 d2
    unfolding closed_partition_def by auto
qed

lemma components_loop_partition:
  assumes keys: "\<And>k. k \<in> F \<Longrightarrow> map_of nbs k \<noteq> None"
    and sub: "\<And>k. nbr nbs k \<subseteq> F"
    and fin: "finite F"
    and sym: "\<And>k x. x \<in> nbr nbs k \<Longrightarrow> k \<in> nbr nbs x"
  shows "set L \<subseteq> F \<Longrightarrow> visited = \<Union> (set comps) \<Longrightarrow> closed_partition nbs F comps \<Longrightarrow>
     \<exists>comps'. components_loop nbs L visited comps = Inr comps' \<and>
        visited \<union> set L \<subseteq> \<Union> (set comps') \<and> closed_partition nbs F comps'"
proof (induction L arbitrary: visited comps)
  case Nil
  then show ?case by simp
next
  case (Cons cell L)
  show ?case
  proof (cases "cell \<in> visited")
    case True
    have "\<exists>comps'. components_loop nbs L visited comps = Inr comps' \<and>
        visited \<union> set L \<subseteq> \<Union> (set comps') \<and> closed_partition nbs F comps'"
      using Cons.prems by (intro Cons.IH) simp_all
    then obtain comps' where c: "components_loop nbs L visited comps = Inr comps'"
      "visited \<union> set L \<subseteq> \<Union> (set comps')" "closed_partition nbs F comps'"
      by blast
    have eq: "components_loop nbs (cell # L) visited comps = Inr comps'"
      using True c(1) by simp
    have cover: "visited \<union> set (cell # L) \<subseteq> \<Union> (set comps')"
      using c(2) True by auto
    show ?thesis
      using eq cover c(3) by blast
  next
    case False
    have cellF: "cell \<in> F"
      using Cons.prems(1) by simp
    have "\<exists>v c'. dfs nbs [cell] (insert cell visited) {} = Inr (v, c') \<and>
           {} \<union> set [cell] \<subseteq> c' \<and> v = insert cell visited \<union> c' \<and>
           c' \<subseteq> {} \<union> set [cell] \<union> (F - insert cell visited) \<and>
           (\<forall>c\<in>c'. nbr nbs c \<subseteq> v)"
      by (rule dfs_explores[OF keys sub fin]) (use cellF in simp_all)
    then obtain v c' where r0: "dfs nbs [cell] (insert cell visited) {} = Inr (v, c')"
      "{} \<union> set [cell] \<subseteq> c'" "v = insert cell visited \<union> c'"
      "c' \<subseteq> {} \<union> set [cell] \<union> (F - insert cell visited)"
      "\<forall>c\<in>c'. nbr nbs c \<subseteq> v"
      by blast
    note rd = r0(1) and rn = r0(5)
    have rc: "cell \<in> c'"
      using r0(2) by simp
    have rv: "v = visited \<union> c'"
      using r0(3) rc by auto
    have rs: "c' \<subseteq> insert cell (F - insert cell visited)"
      using r0(4) by simp
    have c'F: "c' \<subseteq> F"
      using rs cellF by auto
    have dis: "c' \<inter> visited = {}"
      using rs False by auto
    have old: "\<And>d k. d \<in> set comps \<Longrightarrow> k \<in> d \<Longrightarrow> nbr nbs k \<subseteq> d"
      using Cons.prems(3) unfolding closed_partition_def by blast
    have closed: "nbr nbs k \<subseteq> c'" if k: "k \<in> c'" for k
    proof
      fix x
      assume x: "x \<in> nbr nbs k"
      show "x \<in> c'"
      proof (rule ccontr)
        assume "x \<notin> c'"
        then have "x \<in> visited"
          using rv rn k x by auto
        then obtain d where d: "d \<in> set comps" "x \<in> d"
          using Cons.prems(2) by auto
        have "k \<in> nbr nbs x"
          using x by (rule sym)
        then have "k \<in> d"
          using old[OF d] by auto
        then have "k \<in> visited"
          using d(1) Cons.prems(2) by auto
        then show False
          using dis k by auto
      qed
    qed
    have cp: "closed_partition nbs F (comps @ [c'])"
    proof (rule closed_partition_snoc[OF Cons.prems(3) c'F _ closed])
      show "c' \<noteq> {}"
        using rc by auto
      show "c' \<inter> \<Union> (set comps) = {}"
        using dis Cons.prems(2) by simp
    qed
    have "\<exists>comps'. components_loop nbs L v (comps @ [c']) = Inr comps' \<and>
        v \<union> set L \<subseteq> \<Union> (set comps') \<and> closed_partition nbs F comps'"
    proof (rule Cons.IH[OF _ _ cp])
      show "set L \<subseteq> F"
        using Cons.prems(1) by simp
      show "v = \<Union> (set (comps @ [c']))"
        using rv Cons.prems(2) by auto
    qed
    then obtain comps' where c: "components_loop nbs L v (comps @ [c']) = Inr comps'"
      "v \<union> set L \<subseteq> \<Union> (set comps')" "closed_partition nbs F comps'"
      by blast
    have eq: "components_loop nbs (cell # L) visited comps = Inr comps'"
      using False rd c(1) by (simp del: dfs.simps)
    have cover: "visited \<union> set (cell # L) \<subseteq> \<Union> (set comps')"
      using c(2) rc rv by auto
    show ?thesis
      using eq cover c(3) by blast
  qed
qed

section \<open>The decomposition is a partition\<close>

lemma adjacent_sym: "adjacent K k x \<Longrightarrow> adjacent K x k"
  by (auto simp: adjacent_def)

lemma get_components_partition:
  "\<exists>comps. get_components K fringe = Inr comps \<and> \<Union> (set comps) = set fringe \<and>
     closed_partition (build_neighbors K fringe) (set fringe) comps"
proof -
  let ?nbs = "build_neighbors K fringe"
  have "\<exists>comps'. components_loop ?nbs fringe {} [] = Inr comps' \<and>
        {} \<union> set fringe \<subseteq> \<Union> (set comps') \<and> closed_partition ?nbs (set fringe) comps'"
  proof (rule components_loop_partition)
    show "\<And>k. k \<in> set fringe \<Longrightarrow> map_of ?nbs k \<noteq> None"
      by (rule map_of_build_neighbors)
    show "\<And>k. nbr ?nbs k \<subseteq> set fringe"
      by (auto simp: in_nbr_build_neighbors)
    show "finite (set fringe)"
      by simp
    show "\<And>k x. x \<in> nbr ?nbs k \<Longrightarrow> k \<in> nbr ?nbs x"
      by (auto simp: in_nbr_build_neighbors dest: adjacent_sym)
    show "set fringe \<subseteq> set fringe"
      by simp
    show "{} = \<Union> (set [])"
      by simp
    show "closed_partition ?nbs (set fringe) []"
      by (simp add: closed_partition_def)
  qed
  then obtain comps where c: "components_loop ?nbs fringe {} [] = Inr comps"
    "set fringe \<subseteq> \<Union> (set comps)" "closed_partition ?nbs (set fringe) comps"
    by auto
  have "\<Union> (set comps) \<subseteq> set fringe"
    using c(3) unfolding closed_partition_def by blast
  then have "\<Union> (set comps) = set fringe"
    using c(2) by auto
  then show ?thesis
    using c(1,3) by (auto simp: get_components_def)
qed

lemma sentence_in_component:
  assumes cp: "closed_partition (build_neighbors K fringe) (set fringe) comps"
    and s: "s \<in> set K" "finite (cells s)"
    and c: "c \<in> set comps" "cells s \<inter> c \<noteq> {}"
  shows "cells s \<inter> set fringe \<subseteq> c"
proof
  fix x
  assume x: "x \<in> cells s \<inter> set fringe"
  obtain k where k: "k \<in> cells s" "k \<in> c"
    using c(2) by auto
  have cF: "c \<subseteq> set fringe" and closed: "nbr (build_neighbors K fringe) k \<subseteq> c"
    using cp c(1) k(2) unfolding closed_partition_def by blast+
  show "x \<in> c"
  proof (cases "x = k")
    case True
    then show ?thesis using k(2) by simp
  next
    case False
    then have "adjacent K k x"
      using s k(1) x unfolding adjacent_def by auto
    then have "x \<in> nbr (build_neighbors K fringe) k"
      using k(2) cF x by (auto simp: in_nbr_build_neighbors)
    then show ?thesis
      using closed by auto
  qed
qed

lemma set_fringe_list:
  "\<forall>s\<in>set (knowledge a). finite (cells s) \<Longrightarrow>
   set (fringe_list a) = \<Union> (cells ` set (knowledge a))"
  by (simp add: fringe_list_def)

text \<open>
  C7. For the frontier of the knowledge base (the list of all cells of its Sentences, as
  \<open>get_action\<close> passes it) \<open>get_components\<close> returns a list of components such that every
  cell of a Sentence lies in exactly one component, the components are non-empty sets of
  frontier cells, pairwise different and disjoint, a Sentence that meets a component
  lies inside it, and every Sentence with cells lies inside exactly one component.
\<close>

theorem components_partition:
  assumes "\<forall>s\<in>set (knowledge a). finite (cells s)"
  shows "\<exists>comps. get_components (knowledge a) (fringe_list a) = Inr comps \<and>
     (\<forall>x. (\<exists>s\<in>set (knowledge a). x \<in> cells s) \<longrightarrow> (\<exists>!c. c \<in> set comps \<and> x \<in> c)) \<and>
     (\<forall>c\<in>set comps. c \<noteq> {} \<and> c \<subseteq> \<Union> (cells ` set (knowledge a))) \<and>
     distinct comps \<and>
     (\<forall>c\<in>set comps. \<forall>d\<in>set comps. c \<noteq> d \<longrightarrow> c \<inter> d = {}) \<and>
     (\<forall>s\<in>set (knowledge a). \<forall>c\<in>set comps. cells s \<inter> c \<noteq> {} \<longrightarrow> cells s \<subseteq> c) \<and>
     (\<forall>s\<in>set (knowledge a). cells s \<noteq> {} \<longrightarrow> (\<exists>!c. c \<in> set comps \<and> cells s \<subseteq> c))"
proof -
  let ?K = "knowledge a"
  let ?F = "\<Union> (cells ` set ?K)"
  have F: "set (fringe_list a) = ?F"
    using assms by (rule set_fringe_list)
  obtain comps where g: "get_components ?K (fringe_list a) = Inr comps"
    and u: "\<Union> (set comps) = ?F"
    and cp: "closed_partition (build_neighbors ?K (fringe_list a)) ?F comps"
    using get_components_partition[of ?K "fringe_list a"] unfolding F by blast
  have ne: "\<And>c. c \<in> set comps \<Longrightarrow> c \<noteq> {} \<and> c \<subseteq> ?F"
    and di: "distinct comps"
    and dj: "\<And>c d. c \<in> set comps \<Longrightarrow> d \<in> set comps \<Longrightarrow> c \<noteq> d \<Longrightarrow> c \<inter> d = {}"
    using cp unfolding closed_partition_def by blast+
  have inside: "cells s \<subseteq> c" if "s \<in> set ?K" "c \<in> set comps" "cells s \<inter> c \<noteq> {}" for s c
  proof -
    have "cells s \<inter> set (fringe_list a) \<subseteq> c"
      using cp that assms unfolding F[symmetric]
      by (intro sentence_in_component[of ?K "fringe_list a" comps]) auto
    moreover have "cells s \<subseteq> set (fringe_list a)"
      unfolding F using that(1) by auto
    ultimately show ?thesis by auto
  qed
  have one: "\<exists>!c. c \<in> set comps \<and> x \<in> c" if "x \<in> ?F" for x
  proof -
    have "x \<in> \<Union> (set comps)"
      using that by (simp only: u)
    then obtain c where c: "c \<in> set comps" "x \<in> c"
      by (rule UnionE)
    have "d = c" if "d \<in> set comps" "x \<in> d" for d
      using dj[OF that(1) c(1)] that(2) c(2) by auto
    then show ?thesis
      using c by blast
  qed
  have one_s: "\<exists>!c. c \<in> set comps \<and> cells s \<subseteq> c" if s: "s \<in> set ?K" "cells s \<noteq> {}" for s
  proof -
    obtain x where x: "x \<in> cells s"
      using s(2) by auto
    then have "x \<in> ?F"
      using s(1) by auto
    then obtain c where c: "c \<in> set comps" "x \<in> c" "\<And>d. d \<in> set comps \<Longrightarrow> x \<in> d \<Longrightarrow> d = c"
      using one[of x] by blast
    have "cells s \<subseteq> c"
      using inside[OF s(1) c(1)] x c(2) by auto
    moreover have "d = c" if "d \<in> set comps" "cells s \<subseteq> d" for d
      using c(3)[OF that(1)] that(2) x by auto
    ultimately show ?thesis
      using c(1) by blast
  qed
  have p1: "\<forall>x. (\<exists>s\<in>set ?K. x \<in> cells s) \<longrightarrow> (\<exists>!c. c \<in> set comps \<and> x \<in> c)"
  proof (intro allI impI)
    fix x
    assume "\<exists>s\<in>set ?K. x \<in> cells s"
    then have "x \<in> ?F" by auto
    then show "\<exists>!c. c \<in> set comps \<and> x \<in> c" by (rule one)
  qed
  have p2: "\<forall>c\<in>set comps. c \<noteq> {} \<and> c \<subseteq> ?F"
    using ne by blast
  have p4: "\<forall>c\<in>set comps. \<forall>d\<in>set comps. c \<noteq> d \<longrightarrow> c \<inter> d = {}"
    using dj by blast
  have p5: "\<forall>s\<in>set ?K. \<forall>c\<in>set comps. cells s \<inter> c \<noteq> {} \<longrightarrow> cells s \<subseteq> c"
    using inside by blast
  have p6: "\<forall>s\<in>set ?K. cells s \<noteq> {} \<longrightarrow> (\<exists>!c. c \<in> set comps \<and> cells s \<subseteq> c)"
    using one_s by blast
  show ?thesis
    by (rule exI[of _ comps]) (intro conjI g p1 p2 di p4 p5 p6)
qed

theorem components_partition_witness:
  "get_components
      [\<lparr>cells = {(0, 0), (0, 1)}, count = 1\<rparr>, \<lparr>cells = {(0, 1), (0, 2)}, count = 1\<rparr>,
       \<lparr>cells = {(3, 1), (3, 2)}, count = 1\<rparr>]
      (fringe_list ((init_agent 4 4)\<lparr>knowledge :=
         [\<lparr>cells = {(0, 0), (0, 1)}, count = 1\<rparr>, \<lparr>cells = {(0, 1), (0, 2)}, count = 1\<rparr>,
          \<lparr>cells = {(3, 1), (3, 2)}, count = 1\<rparr>]\<rparr>))
     = Inr [{(0, 0), (0, 1), (0, 2)}, {(3, 1), (3, 2)}] \<and>
   {(0, 0), (0, 1), (0, 2)} \<inter> {(3::int, 1::int), (3, 2)} = {} \<and>
   {(0, 0), (0, 1)} \<subseteq> {(0, 0), (0, 1), (0::int, 2::int)} \<and>
   {(0, 1), (0, 2)} \<subseteq> {(0, 0), (0, 1), (0::int, 2::int)}"
proof -
  let ?a = "(init_agent 4 4)\<lparr>knowledge :=
         [\<lparr>cells = {(0, 0), (0, 1)}, count = 1\<rparr>, \<lparr>cells = {(0, 1), (0, 2)}, count = 1\<rparr>,
          \<lparr>cells = {(3, 1), (3, 2)}, count = 1\<rparr>]\<rparr>"
  have g: "get_components (knowledge ?a) (fringe_list ?a)
     = Inr [{(0, 0), (0, 1), (0, 2)}, {(3, 1), (3, 2)}]"
    by code_simp
  have d: "{(0, 0), (0, 1), (0, 2)} \<inter> {(3::int, 1::int), (3, 2)} = {}"
    by simp
  have f: "\<forall>s\<in>set (knowledge ?a). finite (cells s)"
    by (simp add: init_agent_def)
  from components_partition[OF f] g d show ?thesis
    by (simp add: init_agent_def)
qed

section \<open>Consistency is kept by the inference\<close>

lemma sentence_true_mark_safe:
  assumes "sentence_true L s" "c \<notin> L"
  shows "sentence_true L (sentence_mark_safe s c)"
proof -
  have "(cells s - {c}) \<inter> L = cells s \<inter> L"
    using assms(2) by auto
  then show ?thesis
    using assms(1) by (simp add: sentence_true_def sentence_mark_safe_def)
qed

lemma sentence_true_mark_mine:
  assumes "sentence_true L s" "c \<in> L"
  shows "sentence_true L (sentence_mark_mine s c)"
proof (cases "c \<in> cells s")
  case True
  have fin: "finite (cells s \<inter> L)"
    using assms(1) by (simp add: sentence_true_def)
  have "(cells s - {c}) \<inter> L = (cells s \<inter> L) - {c}"
    by auto
  moreover have "c \<in> cells s \<inter> L"
    using True assms(2) by simp
  moreover have "card (cells s \<inter> L) > 0"
    using fin True assms(2) by (auto simp: card_gt_0_iff)
  ultimately have "int (card ((cells s - {c}) \<inter> L)) = int (card (cells s \<inter> L)) - 1"
    using fin by (simp add: card_Diff_singleton of_nat_diff)
  then show ?thesis
    using assms(1) True by (simp add: sentence_true_def sentence_mark_mine_def)
next
  case False
  then show ?thesis
    using assms(1) by (simp add: sentence_mark_mine_def)
qed

lemma cells_mark_safe: "cells (sentence_mark_safe s c) = cells s - {c}"
  by (auto simp: sentence_mark_safe_def)

lemma cells_mark_mine: "cells (sentence_mark_mine s c) = cells s - {c}"
  by (auto simp: sentence_mark_mine_def)

lemma consistent_mark_safe:
  assumes "consistent L a" "c \<notin> L"
  shows "consistent L (mark_safe a c)"
proof (cases "c \<in> safes a")
  case True
  then show ?thesis using assms(1) by (simp add: mark_safe_def)
next
  case False
  have "sentence_true L (sentence_mark_safe s c) \<and>
        cells (sentence_mark_safe s c) \<inter> (insert c (safes a) \<union> mines a) = {}"
    if "s \<in> set (knowledge a)" for s
  proof -
    have "sentence_true L s" "cells s \<inter> (safes a \<union> mines a) = {}"
      using assms(1) that unfolding consistent_def by blast+
    then show ?thesis
      using sentence_true_mark_safe[OF _ assms(2)] by (auto simp: cells_mark_safe)
  qed
  moreover have "insert c (safes a) \<inter> L = {}" "mines a \<subseteq> L"
    using assms unfolding consistent_def by auto
  ultimately show ?thesis
    using False unfolding consistent_def by (simp add: mark_safe_def)
qed

lemma consistent_mark_mine:
  assumes "consistent L a" "c \<in> L"
  shows "consistent L (mark_mine a c)"
proof (cases "c \<in> mines a")
  case True
  then show ?thesis using assms(1) by (simp add: mark_mine_def)
next
  case False
  have "sentence_true L (sentence_mark_mine s c) \<and>
        cells (sentence_mark_mine s c) \<inter> (safes a \<union> insert c (mines a)) = {}"
    if "s \<in> set (knowledge a)" for s
  proof -
    have "sentence_true L s" "cells s \<inter> (safes a \<union> mines a) = {}"
      using assms(1) that unfolding consistent_def by blast+
    then show ?thesis
      using sentence_true_mark_mine[OF _ assms(2)] by (auto simp: cells_mark_mine)
  qed
  moreover have "safes a \<inter> L = {}" "insert c (mines a) \<subseteq> L"
    using assms unfolding consistent_def by auto
  ultimately show ?thesis
    using False unfolding consistent_def by (simp add: mark_mine_def)
qed

lemma consistent_fold_mark_safe:
  "consistent L a \<Longrightarrow> set xs \<inter> L = {} \<Longrightarrow> consistent L (fold (\<lambda>c b. mark_safe b c) xs a)"
  by (induction xs arbitrary: a) (auto simp: consistent_mark_safe)

lemma consistent_fold_mark_mine:
  "consistent L a \<Longrightarrow> set xs \<subseteq> L \<Longrightarrow> consistent L (fold (\<lambda>c b. mark_mine b c) xs a)"
  by (induction xs arbitrary: a) (auto simp: consistent_mark_mine)

lemma safes_fold_mark_safe: "safes (fold (\<lambda>c b. mark_safe b c) xs a) = safes a \<union> set xs"
  by (induction xs arbitrary: a) (auto simp: mark_safe_def)

lemma mines_fold_mark_mine: "mines (fold (\<lambda>c b. mark_mine b c) xs a) = mines a \<union> set xs"
  by (induction xs arbitrary: a) (auto simp: mark_mine_def)

lemma safes_fold_mark_mine: "safes (fold (\<lambda>c b. mark_mine b c) xs a) = safes a"
  by (induction xs arbitrary: a) (auto simp: mark_mine_def)

lemma frontier_mark_safe: "frontier (mark_safe a c) \<subseteq> frontier a"
  by (auto simp: frontier_def mark_safe_def cells_mark_safe)

lemma frontier_mark_mine: "frontier (mark_mine a c) \<subseteq> frontier a"
  by (auto simp: frontier_def mark_mine_def cells_mark_mine)

lemma frontier_fold_mark_safe: "frontier (fold (\<lambda>c b. mark_safe b c) xs a) \<subseteq> frontier a"
proof (induction xs arbitrary: a)
  case Nil
  show ?case by simp
next
  case (Cons c xs)
  show ?case
    using Cons.IH[of "mark_safe a c"] frontier_mark_safe[of a c] by auto
qed

lemma frontier_fold_mark_mine: "frontier (fold (\<lambda>c b. mark_mine b c) xs a) \<subseteq> frontier a"
proof (induction xs arbitrary: a)
  case Nil
  show ?case by simp
next
  case (Cons c xs)
  show ?case
    using Cons.IH[of "mark_mine a c"] frontier_mark_mine[of a c] by auto
qed

lemma consistentD:
  assumes "consistent L a" "s \<in> set (knowledge a)"
  shows "finite (cells s)" "count s = int (card (cells s \<inter> L))"
    "cells s \<inter> safes a = {}" "cells s \<inter> mines a = {}"
  using assms unfolding consistent_def sentence_true_def by blast+

lemma safes_to_mark_no_mine:
  assumes "consistent L a"
  shows "safes_to_mark (knowledge a) \<inter> L = {}"
proof -
  have "c \<notin> L" if "s \<in> set (knowledge a)" "c \<in> known_safes s" for s c
  proof -
    have "count s = 0" "c \<in> cells s"
      using that(2) by (auto simp: known_safes_def split: if_splits)
    then have "card (cells s \<inter> L) = 0"
      using consistentD(2)[OF assms that(1)] by simp
    then have "cells s \<inter> L = {}"
      using consistentD(1)[OF assms that(1)] by simp
    then show ?thesis
      using \<open>c \<in> cells s\<close> by auto
  qed
  then show ?thesis
    by (auto simp: safes_to_mark_def)
qed

lemma mines_to_mark_mines:
  assumes "consistent L a"
  shows "mines_to_mark (knowledge a) \<subseteq> L"
proof -
  have "c \<in> L" if "s \<in> set (knowledge a)" "c \<in> known_mines s" for s c
  proof -
    have "int (card (cells s)) = count s" "c \<in> cells s"
      using that(2) by (auto simp: known_mines_def split: if_splits)
    then have "card (cells s \<inter> L) = card (cells s)"
      using consistentD(2)[OF assms that(1)] by simp
    then have "cells s \<inter> L = cells s"
      using consistentD(1)[OF assms that(1)] by (intro card_subset_eq) auto
    then show ?thesis
      using \<open>c \<in> cells s\<close> by auto
  qed
  then show ?thesis
    by (auto simp: mines_to_mark_def)
qed

lemma to_mark_frontier:
  "safes_to_mark (knowledge a) \<subseteq> frontier a" "mines_to_mark (knowledge a) \<subseteq> frontier a"
  by (auto simp: safes_to_mark_def mines_to_mark_def known_safes_def known_mines_def
      frontier_def split: if_splits)

lemma finite_frontier: "consistent L a \<Longrightarrow> finite (frontier a)"
  unfolding frontier_def by (auto dest: consistentD(1))

lemma mark_all_unchanged:
  "safes_to_mark (knowledge a) = {} \<Longrightarrow> mines_to_mark (knowledge a) = {} \<Longrightarrow> mark_all a = a"
  by (simp add: mark_all_def)

lemma consistent_mark_all:
  assumes "consistent L a"
  shows "consistent L (mark_all a)"
proof -
  let ?S = "safes_to_mark (knowledge a)" and ?M = "mines_to_mark (knowledge a)"
  have fin: "finite ?S" "finite ?M"
    using to_mark_frontier[of a] finite_frontier[OF assms] by (auto intro: finite_subset)
  have "consistent L (fold (\<lambda>c b. mark_safe b c) (sorted_list_of_set ?S) a)"
    using assms safes_to_mark_no_mine[OF assms] fin(1)
    by (intro consistent_fold_mark_safe) simp_all
  then have "consistent L (fold (\<lambda>c b. mark_mine b c) (sorted_list_of_set ?M)
      (fold (\<lambda>c b. mark_safe b c) (sorted_list_of_set ?S) a))"
    using mines_to_mark_mines[OF assms] fin(2)
    by (intro consistent_fold_mark_mine) simp_all
  then show ?thesis
    using assms by (simp add: mark_all_def Let_def)
qed

lemma frontier_mark_all: "frontier (mark_all a) \<subseteq> frontier a"
proof -
  have "frontier (fold (\<lambda>c b. mark_mine b c) xs (fold (\<lambda>c b. mark_safe b c) ys a)) \<subseteq> frontier a"
    for xs ys
    using frontier_fold_mark_mine[of xs "fold (\<lambda>c b. mark_safe b c) ys a"]
      frontier_fold_mark_safe[of ys a]
    by (rule subset_trans)
  then show ?thesis
    by (simp add: mark_all_def Let_def)
qed

lemma frontier_mark_all_changes:
  assumes "consistent L a"
    and ch: "safes_to_mark (knowledge a) \<noteq> {} \<or> mines_to_mark (knowledge a) \<noteq> {}"
  shows "frontier (mark_all a) \<inter> (safes_to_mark (knowledge a) \<union> mines_to_mark (knowledge a)) = {}"
proof -
  let ?S = "safes_to_mark (knowledge a)" and ?M = "mines_to_mark (knowledge a)"
  have fin: "finite ?S" "finite ?M"
    using to_mark_frontier[of a] finite_frontier[OF assms(1)] by (auto intro: finite_subset)
  have eq: "mark_all a = fold (\<lambda>c b. mark_mine b c) (sorted_list_of_set ?M)
      (fold (\<lambda>c b. mark_safe b c) (sorted_list_of_set ?S) a)"
    using ch by (simp add: mark_all_def Let_def)
  have s: "?S \<subseteq> safes (mark_all a)"
    unfolding eq using fin by (simp add: safes_fold_mark_mine safes_fold_mark_safe)
  have m: "?M \<subseteq> mines (mark_all a)"
    unfolding eq using fin by (simp add: mines_fold_mark_mine)
  have "cells t \<inter> (?S \<union> ?M) = {}" if "t \<in> set (knowledge (mark_all a))" for t
    using consistentD(3,4)[OF consistent_mark_all[OF assms(1)] that] s m by blast
  then show ?thesis
    unfolding frontier_def by blast
qed

lemma remove_empty_knowledge:
  assumes "consistent L a"
  shows "knowledge (remove_empty a) = filter (\<lambda>s. cells s \<noteq> {}) (knowledge a)"
proof -
  have "(card (cells s) > 0) = (cells s \<noteq> {})" if "s \<in> set (knowledge a)" for s
    using consistentD(1)[OF assms that] by (simp add: card_gt_0_iff)
  then show ?thesis
    unfolding remove_empty_def by (simp cong: filter_cong)
qed

lemma consistent_remove_empty: "consistent L a \<Longrightarrow> consistent L (remove_empty a)"
  unfolding consistent_def by (simp add: remove_empty_def)

lemma frontier_remove_empty: "consistent L a \<Longrightarrow> frontier (remove_empty a) = frontier a"
  by (auto simp: frontier_def remove_empty_knowledge)

lemma live_remove_empty: "consistent L a \<Longrightarrow> live (remove_empty a) = live a"
  by (auto simp: live_def remove_empty_knowledge)

lemma sentence_true_diff:
  assumes "sentence_true L s1" "sentence_true L s2" "cells s1 \<subseteq> cells s2"
  shows "sentence_true L (diff_sentence s1 s2)"
proof -
  have f: "finite (cells s1 \<inter> L)" "cells s1 \<inter> L \<subseteq> cells s2 \<inter> L"
    using assms by (auto simp: sentence_true_def)
  have "(cells s2 - cells s1) \<inter> L = (cells s2 \<inter> L) - (cells s1 \<inter> L)"
    by auto
  then have "card ((cells s2 - cells s1) \<inter> L) = card (cells s2 \<inter> L) - card (cells s1 \<inter> L)"
    using card_Diff_subset[OF f] by simp
  moreover have "card (cells s1 \<inter> L) \<le> card (cells s2 \<inter> L)"
    using assms(2) f(2) by (intro card_mono) (auto simp: sentence_true_def)
  ultimately show ?thesis
    using assms by (simp add: sentence_true_def diff_sentence_def of_nat_diff)
qed

lemma consistent_subset_inference:
  assumes "consistent L a"
  shows "consistent L (subset_inference a)"
proof -
  have "sentence_true L x \<and> cells x \<inter> (safes a \<union> mines a) = {}"
    if x: "x \<in> set (new_sentences (knowledge a))" for x
  proof -
    obtain s1 s2 where s: "s1 \<in> set (knowledge a)" "s2 \<in> set (knowledge a)"
      "cells s1 \<subseteq> cells s2" "x = diff_sentence s1 s2"
      using x unfolding in_new_sentences by blast
    have t: "sentence_true L s1" "sentence_true L s2" "cells s2 \<inter> (safes a \<union> mines a) = {}"
      using assms s(1,2) unfolding consistent_def by blast+
    have "cells x \<subseteq> cells s2"
      unfolding s(4) by (simp add: diff_sentence_def)
    then show ?thesis
      using sentence_true_diff[OF t(1,2) s(3)] t(3) unfolding s(4) by blast
  qed
  then show ?thesis
    using assms unfolding consistent_def subset_inference_def by auto
qed

lemma frontier_subset_inference: "frontier (subset_inference a) = frontier a"
proof -
  have "cells x \<subseteq> frontier a" if x: "x \<in> set (new_sentences (knowledge a))" for x
  proof -
    obtain s1 s2 where s: "s2 \<in> set (knowledge a)" "x = diff_sentence s1 s2"
      using x unfolding in_new_sentences by blast
    then show ?thesis
      by (auto simp: frontier_def diff_sentence_def)
  qed
  then show ?thesis
    by (auto simp: frontier_def subset_inference_def)
qed

lemma fst_infer_pass: "fst (infer_pass a) = subset_inference (remove_empty (mark_all a))"
  by (simp add: infer_pass_def Let_def)

lemma consistent_infer_pass: "consistent L a \<Longrightarrow> consistent L (fst (infer_pass a))"
  unfolding fst_infer_pass
  by (intro consistent_subset_inference consistent_remove_empty consistent_mark_all)

lemma frontier_infer_pass:
  assumes "consistent L a"
  shows "frontier (fst (infer_pass a)) = frontier (mark_all a)"
  unfolding fst_infer_pass frontier_subset_inference
  by (rule frontier_remove_empty[OF consistent_mark_all[OF assms]])

section \<open>Termination of the inference loop\<close>

lemma finite_live: "finite (live a)"
  by (simp add: live_def)

lemma live_bound:
  assumes "consistent L a"
  shows "card (live a) \<le> 2 ^ card (frontier a)"
proof -
  let ?f = "\<lambda>c. \<lparr>cells = c, count = int (card (c \<inter> L))\<rparr>"
  have "s \<in> ?f ` Pow (frontier a)" if "s \<in> live a" for s
  proof -
    have k: "s \<in> set (knowledge a)"
      using that by (simp add: live_def)
    have "s = ?f (cells s)"
      using consistentD(2)[OF assms k] by simp
    moreover have "cells s \<in> Pow (frontier a)"
      using k by (auto simp: frontier_def)
    ultimately show ?thesis
      by (rule image_eqI)
  qed
  then have "live a \<subseteq> ?f ` Pow (frontier a)"
    by blast
  then have "card (live a) \<le> card (?f ` Pow (frontier a))"
    using finite_frontier[OF assms] by (intro card_mono) simp_all
  also have "\<dots> \<le> card (Pow (frontier a))"
    using finite_frontier[OF assms] by (intro card_image_le) simp
  also have "\<dots> = 2 ^ card (frontier a)"
    using finite_frontier[OF assms] by (rule card_Pow)
  finally show ?thesis .
qed

lemma new_sentences_fresh:
  assumes "x \<in> set (new_sentences K)"
  shows "x \<notin> set K" "cells x \<noteq> {}"
proof -
  show "x \<notin> set K"
    using assms unfolding in_new_sentences by blast
  obtain s1 s2 where "card (cells s2 - cells s1) > 0" "x = diff_sentence s1 s2"
    using assms unfolding in_new_sentences by blast
  then show "cells x \<noteq> {}"
    by (auto simp: diff_sentence_def card_gt_0_iff)
qed

lemma live_grows:
  assumes c: "consistent L a"
    and s: "safes_to_mark (knowledge a) = {}" and m: "mines_to_mark (knowledge a) = {}"
    and n: "new_sentences (knowledge (remove_empty a)) \<noteq> []"
  shows "card (live a) < card (live (fst (infer_pass a)))"
proof -
  let ?new = "new_sentences (knowledge (remove_empty a))"
  have k: "knowledge (fst (infer_pass a)) = knowledge (remove_empty a) @ ?new"
    by (simp add: fst_infer_pass subset_inference_def mark_all_unchanged[OF s m])
  have lr: "live a = set (knowledge (remove_empty a))"
    by (auto simp: live_def remove_empty_knowledge[OF c])
  have kn: "\<forall>x\<in>set (knowledge (remove_empty a)). cells x \<noteq> {}"
    by (simp add: remove_empty_knowledge[OF c])
  have ln: "\<forall>x\<in>set ?new. cells x \<noteq> {}"
    using new_sentences_fresh(2) by blast
  have l: "live (fst (infer_pass a)) = live a \<union> set ?new"
    unfolding lr using kn ln by (auto simp: live_def k)
  have d: "live a \<inter> set ?new = {}"
    unfolding lr using new_sentences_fresh(1) by blast
  have "card (live a \<union> set ?new) = card (live a) + card (set ?new)"
    using finite_live d by (intro card_Un_disjoint) simp_all
  moreover have "card (set ?new) > 0"
    using n by (simp add: card_gt_0_iff)
  ultimately show ?thesis
    unfolding l by simp
qed

lemma pass_decreases:
  assumes c: "consistent L a" and ch: "snd (infer_pass a)"
  shows "3 * 2 ^ card (frontier (fst (infer_pass a))) - card (live (fst (infer_pass a)))
           < 3 * 2 ^ card (frontier a) - card (live a)"
proof -
  let ?b = "fst (infer_pass a)"
  let ?S = "safes_to_mark (knowledge a)" and ?M = "mines_to_mark (knowledge a)"
  have cb: "consistent L ?b"
    using c by (rule consistent_infer_pass)
  have la: "card (live a) \<le> 2 ^ card (frontier a)"
    using c by (rule live_bound)
  have lb: "card (live ?b) \<le> 2 ^ card (frontier ?b)"
    using cb by (rule live_bound)
  show ?thesis
  proof (cases "?S \<noteq> {} \<or> ?M \<noteq> {}")
    case True
    have "frontier ?b \<inter> (?S \<union> ?M) = {}"
      unfolding frontier_infer_pass[OF c] using c True by (rule frontier_mark_all_changes)
    moreover have "frontier ?b \<subseteq> frontier a"
      unfolding frontier_infer_pass[OF c] by (rule frontier_mark_all)
    moreover have "?S \<union> ?M \<subseteq> frontier a"
      using to_mark_frontier[of a] by auto
    ultimately have "frontier ?b \<subset> frontier a"
      using True by blast
    then have "card (frontier ?b) < card (frontier a)"
      using finite_frontier[OF c] by (intro psubset_card_mono)
    then have "Suc (card (frontier ?b)) \<le> card (frontier a)"
      by simp
    then have "(2::nat) ^ Suc (card (frontier ?b)) \<le> 2 ^ card (frontier a)"
      by (intro power_increasing) simp_all
    then have p: "2 * (2::nat) ^ card (frontier ?b) \<le> 2 ^ card (frontier a)"
      by simp
    have "(2::nat) ^ card (frontier ?b) > 0"
      by simp
    then show ?thesis
      using p la by linarith
  next
    case False
    then have s: "?S = {}" and m: "?M = {}"
      by auto
    have n: "new_sentences (knowledge (remove_empty a)) \<noteq> []"
      using ch s m by (simp add: changes_infer_pass mark_all_unchanged)
    have f: "frontier ?b = frontier a"
      unfolding frontier_infer_pass[OF c] by (simp add: mark_all_unchanged[OF s m])
    have g: "card (live a) < card (live ?b)"
      using c s m n by (rule live_grows)
    show ?thesis
      using g lb unfolding f by linarith
  qed
qed

lemma pass_fixpoint:
  assumes c: "consistent L a" and ch: "\<not> snd (infer_pass a)"
  shows "infer_pass (fst (infer_pass a)) = (fst (infer_pass a), False)"
proof -
  have s: "safes_to_mark (knowledge a) = {}" and m: "mines_to_mark (knowledge a) = {}"
    and n: "new_sentences (knowledge (remove_empty a)) = []"
    using ch by (auto simp: changes_infer_pass mark_all_unchanged)
  have b: "fst (infer_pass a) = remove_empty a"
    by (simp add: fst_infer_pass subset_inference_def mark_all_unchanged[OF s m] n)
  have sub: "set (knowledge (remove_empty a)) \<subseteq> set (knowledge a)"
    by (auto simp: remove_empty_def)
  have s': "safes_to_mark (knowledge (remove_empty a)) = {}"
    using s sub unfolding safes_to_mark_def by auto
  have m': "mines_to_mark (knowledge (remove_empty a)) = {}"
    using m sub unfolding mines_to_mark_def by auto
  have r: "remove_empty (remove_empty a) = remove_empty a"
    by (simp add: remove_empty_def)
  have "subset_inference (remove_empty a) = remove_empty a"
    by (simp add: subset_inference_def n)
  then show ?thesis
    unfolding b
    by (simp add: infer_pass_def Let_def mark_all_unchanged[OF s' m'] r n s' m')
qed

lemma infer_loop_terminates:
  assumes "consistent L a"
  shows "\<exists>b. infer_loop a = Some b \<and> infer_pass b = (b, False) \<and> consistent L b"
  using assms
proof (induction "3 * 2 ^ card (frontier a) - card (live a)" arbitrary: a rule: less_induct)
  case less
  let ?b = "fst (infer_pass a)"
  have cb: "consistent L ?b"
    using less.prems by (rule consistent_infer_pass)
  show ?case
  proof (cases "snd (infer_pass a)")
    case True
    have "\<exists>b. infer_loop ?b = Some b \<and> infer_pass b = (b, False) \<and> consistent L b"
      using pass_decreases[OF less.prems True] cb by (rule less.hyps)
    moreover have "infer_loop a = infer_loop ?b"
      using True by (subst infer_loop.simps) (simp add: case_prod_beta)
    ultimately show ?thesis
      by simp
  next
    case False
    have "infer_loop a = Some ?b"
      using False by (subst infer_loop.simps) (simp add: case_prod_beta)
    then show ?thesis
      using pass_fixpoint[OF less.prems False] cb by simp
  qed
qed

lemma consistent_init: "consistent L (init_agent h w)"
  by (simp add: consistent_def init_agent_def)

lemma consistent_add_sentence:
  assumes c: "consistent L a" and n: "cell \<notin> L"
  shows "consistent L (add_sentence a cell (hint L a cell))"
proof -
  let ?N = "set (window a cell)"
  let ?H = "{p \<in> ?N. p \<notin> mines a \<and> p \<notin> safes a}"
  let ?s = "\<lparr>cells = ?H, count = hint L a cell - int (card (?N \<inter> mines a))\<rparr>"
  let ?b = "add_sentence a cell (hint L a cell)"
  have f: "safes ?b = insert cell (safes a)" "mines ?b = mines a"
    "knowledge ?b = knowledge (mark_safe a cell) @ (if ?H \<noteq> {} then [?s] else [])"
    using add_sentence_fields[of cell a "hint L a cell"] by blast+
  have cm: "consistent L (mark_safe a cell)"
    using c n by (rule consistent_mark_safe)
  have sl: "safes a \<inter> L = {}" and ml: "mines a \<subseteq> L"
    using c unfolding consistent_def by blast+
  have old: "sentence_true L t \<and> cells t \<inter> (insert cell (safes a) \<union> mines a) = {}"
    if "t \<in> set (knowledge (mark_safe a cell))" for t
    using cm that unfolding consistent_def by (simp add: safes_mark_safe mines_mark_safe)
  have "?H \<inter> L = (?N \<inter> L) - (?N \<inter> mines a)"
    using sl by auto
  moreover have "card ((?N \<inter> L) - (?N \<inter> mines a)) = card (?N \<inter> L) - card (?N \<inter> mines a)"
    using ml by (intro card_Diff_subset) auto
  moreover have "card (?N \<inter> mines a) \<le> card (?N \<inter> L)"
    using ml by (intro card_mono) auto
  ultimately have "int (card (?H \<inter> L)) = hint L a cell - int (card (?N \<inter> mines a))"
    by (simp add: hint_def of_nat_diff)
  then have new: "sentence_true L ?s"
    by (simp add: sentence_true_def)
  have dis: "?H \<inter> (insert cell (safes a) \<union> mines a) = {}"
    using cell_notin_window[of cell a] by auto
  show ?thesis
    unfolding consistent_def f
    using sl ml n old new dis by auto
qed

lemma game_state_consistent: "game_state L a \<Longrightarrow> consistent L a"
proof (induction rule: game_state.induct)
  case (start h w)
  show ?case by (rule consistent_init)
next
  case (reveal a cell b)
  have "consistent L (add_sentence a cell (hint L a cell))"
    using reveal.IH reveal.hyps(2) by (rule consistent_add_sentence)
  then obtain b' where "infer_loop (add_sentence a cell (hint L a cell)) = Some b'" "consistent L b'"
    using infer_loop_terminates by blast
  then show ?case
    using reveal.hyps(3) by (simp add: add_knowledge_def infer_knowledge_def)
qed

text \<open>
  C2 (as the code has it). On a knowledge base that is consistent with a mine layout the
  inference loop returns, and it returns a state on which a further pass changes nothing
  and which is again consistent. Every state of a game is consistent, and so is the state that
  \<open>add_knowledge\<close> hands to the loop when a cell without mine is revealed with the number
  of mines around it; hence every run of the loop in a game ends in such a fixpoint.
  The measure that decreases with every pass that reports a change is
  \<open>3 * 2 ^ |cells mentioned| - |Sentences with cells|\<close>.
\<close>

theorem infer_terminates:
  "(consistent L a \<longrightarrow>
      (\<exists>b. infer_knowledge a = Some b \<and> infer_pass b = (b, False) \<and> consistent L b)) \<and>
   (game_state L a \<and> cell \<notin> L \<longrightarrow>
      consistent L (add_sentence a cell (hint L a cell)) \<and>
      (\<exists>b. add_knowledge a cell (hint L a cell) = Some b \<and> infer_pass b = (b, False) \<and>
           game_state L b))"
proof (intro conjI impI)
  show "\<exists>b. infer_knowledge a = Some b \<and> infer_pass b = (b, False) \<and> consistent L b"
    if "consistent L a"
    unfolding infer_knowledge_def using that by (rule infer_loop_terminates)
next
  assume g: "game_state L a \<and> cell \<notin> L"
  show c: "consistent L (add_sentence a cell (hint L a cell))"
    using g game_state_consistent consistent_add_sentence by blast
  obtain b where b: "infer_loop (add_sentence a cell (hint L a cell)) = Some b"
    "infer_pass b = (b, False)"
    using infer_loop_terminates[OF c] by blast
  have k: "add_knowledge a cell (hint L a cell) = Some b"
    using b(1) by (simp add: add_knowledge_def infer_knowledge_def)
  have "game_state L b"
    using g k game_state.reveal by blast
  then show "\<exists>b. add_knowledge a cell (hint L a cell) = Some b \<and> infer_pass b = (b, False) \<and>
           game_state L b"
    using k b(2) by blast
qed

theorem infer_terminates_witness:
  "(\<exists>b. infer_knowledge (init_agent 1 3) = Some b \<and> infer_pass b = (b, False)) \<and>
   (\<exists>b. add_knowledge (init_agent 1 3) (0, 0) (hint {(0, 1)} (init_agent 1 3) (0, 0)) = Some b \<and>
        infer_pass b = (b, False) \<and> (0, 1) \<in> mines b)"
proof -
  have c: "consistent {(0, 1)} (init_agent 1 3)"
    by (simp add: consistent_def init_agent_def)
  have g: "game_state {(0, 1)} (init_agent 1 3)"
    by (rule game_state.start)
  have h: "hint {(0, 1)} (init_agent 1 3) (0, 0) = 1"
    unfolding hint_def by code_simp
  have r: "add_knowledge (init_agent 1 3) (0, 0) 1
      = Some \<lparr>rows = 1, cols = 3, moves_made = {(0, 0)}, mines = {(0, 1)}, safes = {(0, 0)},
               knowledge = []\<rparr>"
    by code_simp
  from infer_terminates[of "{(0, 1)}" "init_agent 1 3" "(0, 0)"] c g r
  show ?thesis
    unfolding h by auto
qed

section \<open>The order of marking does not matter\<close>

lemma sentence_mark_safe_eq: "sentence_mark_safe s c = s\<lparr>cells := cells s - {c}\<rparr>"
proof (cases "c \<in> cells s")
  case True
  then show ?thesis by (simp add: sentence_mark_safe_def)
next
  case False
  then have "cells s - {c} = cells s" by auto
  then show ?thesis using False by (simp add: sentence_mark_safe_def)
qed

lemma fold_mark_safe_closed:
  "fold (\<lambda>c b. mark_safe b c) xs a
     = a\<lparr>safes := safes a \<union> set xs,
         knowledge := map (\<lambda>s. s\<lparr>cells := cells s - (set xs - safes a)\<rparr>) (knowledge a)\<rparr>"
proof (induction xs arbitrary: a)
  case Nil
  show ?case by simp
next
  case (Cons c xs)
  show ?case
  proof (cases "c \<in> safes a")
    case True
    then have "safes a \<union> set (c # xs) = safes a \<union> set xs"
      "set (c # xs) - safes a = set xs - safes a"
      by auto
    then show ?thesis
      using True Cons.IH[of a] by (simp add: mark_safe_def)
  next
    case False
    have m: "mark_safe a c = a\<lparr>safes := insert c (safes a),
        knowledge := map (\<lambda>s. s\<lparr>cells := cells s - {c}\<rparr>) (knowledge a)\<rparr>"
      using False by (simp add: mark_safe_def sentence_mark_safe_eq)
    have u: "insert c (safes a) \<union> set xs = insert c (safes a \<union> set xs)"
      by auto
    have d: "cells s - {c} - (set xs - insert c (safes a)) = cells s - (insert c (set xs) - safes a)"
      for s :: sentence
      using False by auto
    have "fold (\<lambda>c b. mark_safe b c) (c # xs) a = fold (\<lambda>c b. mark_safe b c) xs (mark_safe a c)"
      by simp
    also have "\<dots> = a\<lparr>safes := insert c (safes a \<union> set xs),
         knowledge := map (\<lambda>s. s\<lparr>cells := cells s - (insert c (set xs) - safes a)\<rparr>) (knowledge a)\<rparr>"
      unfolding Cons.IH m by (simp add: u d comp_def)
    finally show ?thesis
      by simp
  qed
qed

lemma fold_mark_safe:
  "set xs = set ys \<Longrightarrow> fold (\<lambda>c b. mark_safe b c) xs a = fold (\<lambda>c b. mark_safe b c) ys a"
  by (simp add: fold_mark_safe_closed)

lemma sentence_mark_mine_eq:
  "sentence_mark_mine s c
     = s\<lparr>cells := cells s - {c}, count := count s - int (card (cells s \<inter> {c}))\<rparr>"
proof (cases "c \<in> cells s")
  case True
  then have "cells s \<inter> {c} = {c}" by auto
  then show ?thesis using True by (simp add: sentence_mark_mine_def)
next
  case False
  then have "cells s - {c} = cells s" "cells s \<inter> {c} = {}" by auto
  then show ?thesis using False by (simp add: sentence_mark_mine_def)
qed

lemma fold_mark_mine_closed:
  "fold (\<lambda>c b. mark_mine b c) xs a
     = a\<lparr>mines := mines a \<union> set xs,
         knowledge := map (\<lambda>s. s\<lparr>cells := cells s - (set xs - mines a),
                                   count := count s - int (card (cells s \<inter> (set xs - mines a)))\<rparr>)
                        (knowledge a)\<rparr>"
proof (induction xs arbitrary: a)
  case Nil
  show ?case by simp
next
  case (Cons c xs)
  show ?case
  proof (cases "c \<in> mines a")
    case True
    then have "mines a \<union> set (c # xs) = mines a \<union> set xs"
      "set (c # xs) - mines a = set xs - mines a"
      by auto
    then show ?thesis
      using True Cons.IH[of a] by (simp add: mark_mine_def)
  next
    case False
    let ?D = "set xs - insert c (mines a)"
    have m: "mark_mine a c = a\<lparr>mines := insert c (mines a),
        knowledge := map (\<lambda>s. s\<lparr>cells := cells s - {c},
                                  count := count s - int (card (cells s \<inter> {c}))\<rparr>) (knowledge a)\<rparr>"
      using False by (simp add: mark_mine_def sentence_mark_mine_eq)
    have u: "insert c (mines a) \<union> set xs = insert c (mines a \<union> set xs)"
      by auto
    have D: "insert c (set xs) - mines a = insert c ?D"
      using False by auto
    have d: "cells s - {c} - ?D = cells s - insert c ?D" for s :: sentence
      by auto
    have k: "int (card (cells s \<inter> {c})) + int (card ((cells s - {c}) \<inter> ?D))
        = int (card (cells s \<inter> insert c ?D))" for s :: sentence
    proof -
      have "cells s \<inter> insert c ?D = (cells s \<inter> {c}) \<union> ((cells s - {c}) \<inter> ?D)"
        by auto
      moreover have "card ((cells s \<inter> {c}) \<union> ((cells s - {c}) \<inter> ?D))
          = card (cells s \<inter> {c}) + card ((cells s - {c}) \<inter> ?D)"
        by (rule card_Un_disjoint) auto
      ultimately show ?thesis by simp
    qed
    have k': "count s - int (card (cells s \<inter> {c})) - int (card ((cells s - {c}) \<inter> ?D))
        = count s - int (card (cells s \<inter> insert c ?D))" for s :: sentence
      using k[of s] by linarith
    have "fold (\<lambda>c b. mark_mine b c) (c # xs) a = fold (\<lambda>c b. mark_mine b c) xs (mark_mine a c)"
      by simp
    also have "\<dots> = a\<lparr>mines := insert c (mines a \<union> set xs),
         knowledge := map (\<lambda>s. s\<lparr>cells := cells s - insert c ?D,
                                   count := count s - int (card (cells s \<inter> insert c ?D))\<rparr>)
                        (knowledge a)\<rparr>"
      unfolding Cons.IH m by (simp add: u d k' comp_def)
    finally show ?thesis
      by (simp add: D)
  qed
qed

lemma fold_mark_mine:
  "set xs = set ys \<Longrightarrow> fold (\<lambda>c b. mark_mine b c) xs a = fold (\<lambda>c b. mark_mine b c) ys a"
  by (simp add: fold_mark_mine_closed)

section \<open>Hints that no mine layout explains\<close>

lemma unexplained_shape:
  assumes "unexplained u v a" "s \<in> set (knowledge a)"
  shows "(cells s = {u, v} \<and> (count s = 4 \<or> count s = 1)) \<or>
         ((cells s = {u} \<or> cells s = {v}) \<and> count s mod 3 = 2)"
  using assms unfolding unexplained_def by blast

lemma unexplained_no_marks:
  assumes "unexplained u v a"
  shows "safes_to_mark (knowledge a) = {}" "mines_to_mark (knowledge a) = {}"
proof -
  have uv: "u \<noteq> v"
    using assms by (simp add: unexplained_def)
  have "known_safes s = {} \<and> known_mines s = {}" if s: "s \<in> set (knowledge a)" for s
  proof -
    consider (pair) "cells s = {u, v}" "count s = 4 \<or> count s = 1"
      | (single) "cells s = {u} \<or> cells s = {v}" "count s mod 3 = 2"
      using unexplained_shape[OF assms s] by blast
    then show ?thesis
    proof cases
      case pair
      have "card (cells s) = 2"
        unfolding pair(1) using uv by simp
      then show ?thesis
        using pair(2) by (auto simp: known_safes_def known_mines_def)
    next
      case single
      have "card (cells s) = 1"
        using single(1) by auto
      moreover have "count s \<noteq> 0" "count s \<noteq> 1"
        using single(2) by auto
      ultimately show ?thesis
        by (simp add: known_safes_def known_mines_def)
    qed
  qed
  then show "safes_to_mark (knowledge a) = {}" "mines_to_mark (knowledge a) = {}"
    by (auto simp: safes_to_mark_def mines_to_mark_def)
qed

lemma unexplained_remove_empty:
  assumes "unexplained u v a"
  shows "remove_empty (mark_all a) = a"
proof -
  have "card (cells s) > 0" if "s \<in> set (knowledge a)" for s
    using unexplained_shape[OF assms that] by (auto simp: card_gt_0_iff)
  then have "filter (\<lambda>s. card (cells s) > 0) (knowledge a) = knowledge a"
    by (simp add: filter_id_conv)
  then show ?thesis
    by (simp add: mark_all_unchanged[OF unexplained_no_marks[OF assms]] remove_empty_def)
qed

lemma derived_is_new:
  assumes "s1 \<in> set K" "s2 \<in> set K" "s1 \<noteq> s2" "cells s1 \<subseteq> cells s2"
    and "0 < card (cells s2 - cells s1)" "diff_sentence s1 s2 \<notin> set K"
  shows "diff_sentence s1 s2 \<in> set (new_sentences K)"
  unfolding in_new_sentences using assms by blast

lemma unexplained_new:
  assumes "unexplained u v a"
  shows "new_sentences (knowledge a) \<noteq> []"
proof -
  let ?K = "knowledge a"
  let ?C = "count ` {s \<in> set ?K. cells s = {u}}"
  have uv: "u \<noteq> v" and p4: "\<lparr>cells = {u, v}, count = 4\<rparr> \<in> set ?K"
    and p1: "\<lparr>cells = {u, v}, count = 1\<rparr> \<in> set ?K"
    using assms by (simp_all add: unexplained_def)
  have fin: "finite ?C" and ne: "?C \<noteq> {}"
    using assms by (auto simp: unexplained_def)
  define m where "m = Max ?C"
  have "m \<in> ?C"
    unfolding m_def using fin ne by (rule Max_in)
  then obtain s where s: "s \<in> set ?K" "cells s = {u}" "count s = m"
    by auto
  have top: "count t \<le> m" if "t \<in> set ?K" "cells t = {u}" for t
    unfolding m_def using fin that by (intro Max_ge) auto
  let ?x = "diff_sentence s \<lparr>cells = {u, v}, count = 1\<rparr>"
  have x: "?x = \<lparr>cells = {v}, count = 1 - m\<rparr>"
    using uv s by (auto simp: diff_sentence_def)
  have dx: "?x \<notin> set ?K \<Longrightarrow> ?x \<in> set (new_sentences ?K)"
  proof (rule derived_is_new[OF s(1) p1])
    show "s \<noteq> \<lparr>cells = {u, v}, count = 1\<rparr>"
      using s(2) uv by auto
    show "cells s \<subseteq> cells \<lparr>cells = {u, v}, count = 1\<rparr>"
      using s(2) by simp
    show "0 < card (cells \<lparr>cells = {u, v}, count = 1\<rparr> - cells s)"
      using s(2) uv by simp
  qed
  show ?thesis
  proof (cases "?x \<in> set ?K")
    case False
    then show ?thesis
      using dx by auto
  next
    case True
    let ?y = "diff_sentence ?x \<lparr>cells = {u, v}, count = 4\<rparr>"
    have y: "?y = \<lparr>cells = {u}, count = m + 3\<rparr>"
      unfolding x using uv by (auto simp: diff_sentence_def)
    have "?y \<notin> set ?K"
      using top[of ?y] unfolding y by auto
    moreover have "?y \<in> set (new_sentences ?K)" if "?y \<notin> set ?K"
    proof (rule derived_is_new[OF True p4 _ _ _ that])
      show "?x \<noteq> \<lparr>cells = {u, v}, count = 4\<rparr>"
        unfolding x using uv by auto
      show "cells ?x \<subseteq> cells \<lparr>cells = {u, v}, count = 4\<rparr>"
        unfolding x by simp
      show "0 < card (cells \<lparr>cells = {u, v}, count = 4\<rparr> - cells ?x)"
        unfolding x using uv by simp
    qed
    ultimately show ?thesis
      by auto
  qed
qed

lemma unexplained_changes: "unexplained u v a \<Longrightarrow> snd (infer_pass a)"
  by (simp add: changes_infer_pass unexplained_remove_empty unexplained_new)

lemma unexplained_pass:
  assumes "unexplained u v a"
  shows "unexplained u v (fst (infer_pass a))"
proof -
  let ?K = "knowledge a"
  have uv: "u \<noteq> v"
    using assms by (simp add: unexplained_def)
  have k: "knowledge (fst (infer_pass a)) = ?K @ new_sentences ?K"
    by (simp add: knowledge_infer_pass unexplained_remove_empty[OF assms])
  have new: "(cells x = {u} \<or> cells x = {v}) \<and> count x mod 3 = 2"
    if x: "x \<in> set (new_sentences ?K)" for x
  proof -
    obtain s1 s2 where s: "s1 \<in> set ?K" "s2 \<in> set ?K" "cells s1 \<subseteq> cells s2"
      "card (cells s2 - cells s1) > 0" "x = diff_sentence s1 s2"
      using x unfolding in_new_sentences by blast
    have ne: "cells s2 - cells s1 \<noteq> {}"
      using s(4) by (auto simp: card_gt_0_iff)
    have sh1: "(cells s1 = {u, v} \<and> (count s1 = 4 \<or> count s1 = 1)) \<or>
         ((cells s1 = {u} \<or> cells s1 = {v}) \<and> count s1 mod 3 = 2)"
      using assms s(1) by (rule unexplained_shape)
    have sh2: "(cells s2 = {u, v} \<and> (count s2 = 4 \<or> count s2 = 1)) \<or>
         ((cells s2 = {u} \<or> cells s2 = {v}) \<and> count s2 mod 3 = 2)"
      using assms s(2) by (rule unexplained_shape)
    have pair: "cells s2 = {u, v}" "count s2 = 4 \<or> count s2 = 1"
      using sh1 sh2 s(3) ne by auto
    have single: "cells s1 = {u} \<or> cells s1 = {v}" "count s1 mod 3 = 2"
      using sh1 pair(1) ne by auto
    have c: "cells x = {u} \<or> cells x = {v}"
      unfolding s(5) using pair(1) single(1) uv by (auto simp: diff_sentence_def)
    have "(count s2 - count s1) mod 3 = 2"
      using pair(2) single(2) by presburger
    then show ?thesis
      using c unfolding s(5) by (simp add: diff_sentence_def)
  qed
  have a: "\<lparr>cells = {u, v}, count = 4\<rparr> \<in> set ?K" "\<lparr>cells = {u, v}, count = 1\<rparr> \<in> set ?K"
    "\<exists>s\<in>set ?K. cells s = {u}"
    using assms by (simp_all add: unexplained_def)
  have sh: "(cells s = {u, v} \<and> (count s = 4 \<or> count s = 1)) \<or>
         ((cells s = {u} \<or> cells s = {v}) \<and> count s mod 3 = 2)"
    if s: "s \<in> set (?K @ new_sentences ?K)" for s
  proof -
    consider "s \<in> set ?K" | "s \<in> set (new_sentences ?K)"
      using s by auto
    then show ?thesis
    proof cases
      case 1
      with assms show ?thesis by (rule unexplained_shape)
    next
      case 2
      then show ?thesis using new by blast
    qed
  qed
  have b4: "\<lparr>cells = {u, v}, count = 4\<rparr> \<in> set (?K @ new_sentences ?K)"
    and b1: "\<lparr>cells = {u, v}, count = 1\<rparr> \<in> set (?K @ new_sentences ?K)"
    and bu: "\<exists>s\<in>set (?K @ new_sentences ?K). cells s = {u}"
    using a by auto
  show ?thesis
    unfolding unexplained_def k
    by (intro conjI ballI uv b4 b1 bu sh)
qed

lemma unexplained_never_returns: "infer_loop a = Some b \<Longrightarrow> \<not> unexplained u v a"
proof (induction rule: infer_loop.raw_induct[rotated 1, consumes 1])
  case (1 f a b)
  show ?case
  proof
    assume d: "unexplained u v a"
    have "f (fst (infer_pass a)) = Some b"
      using "1.hyps" unexplained_changes[OF d] by (simp add: case_prod_beta)
    then have "\<not> unexplained u v (fst (infer_pass a))"
      by (rule "1.IH")
    then show False
      using unexplained_pass[OF d] by simp
  qed
qed

lemma unexplained_diverges: "unexplained u v a \<Longrightarrow> infer_knowledge a = None"
  using unexplained_never_returns[of a _ u v] unfolding infer_knowledge_def
  by (cases "infer_loop a") auto

text \<open>
  The claim as stated fails: finiteness of the grid does not bound the counts, and the
  consistency with a mine layout is needed. On a board of two rows and three columns the
  observation with hints 5, 1 in the first row and 5, 4 in the second (the other two
  cells covered) fits no mine layout. \<open>get_action\<close> feeds the four hints to
  \<open>add_knowledge\<close> row by row; the first three calls return, and the inference loop of
  the fourth runs forever, so \<open>get_action\<close> does not return.
\<close>

theorem inference_runs_forever:
  "add_knowledge (init_agent 2 3) (0, 0) 5
     = Some \<lparr>rows = 2, cols = 3, moves_made = {(0, 0)}, mines = {}, safes = {(0, 0)},
         knowledge = [\<lparr>cells = {(0, 1), (1, 0), (1, 1)}, count = 5\<rparr>]\<rparr> \<and>
   add_knowledge \<lparr>rows = 2, cols = 3, moves_made = {(0, 0)}, mines = {}, safes = {(0, 0)},
         knowledge = [\<lparr>cells = {(0, 1), (1, 0), (1, 1)}, count = 5\<rparr>]\<rparr> (0, 2) 1
     = Some \<lparr>rows = 2, cols = 3, moves_made = {(0, 2), (0, 0)}, mines = {},
         safes = {(0, 2), (0, 0)},
         knowledge = [\<lparr>cells = {(0, 1), (1, 0), (1, 1)}, count = 5\<rparr>,
                      \<lparr>cells = {(0, 1), (1, 1), (1, 2)}, count = 1\<rparr>]\<rparr> \<and>
   add_knowledge \<lparr>rows = 2, cols = 3, moves_made = {(0, 2), (0, 0)}, mines = {},
         safes = {(0, 2), (0, 0)},
         knowledge = [\<lparr>cells = {(0, 1), (1, 0), (1, 1)}, count = 5\<rparr>,
                      \<lparr>cells = {(0, 1), (1, 1), (1, 2)}, count = 1\<rparr>]\<rparr> (1, 0) 5
     = Some \<lparr>rows = 2, cols = 3, moves_made = {(1, 0), (0, 2), (0, 0)}, mines = {},
         safes = {(1, 0), (0, 2), (0, 0)},
         knowledge = [\<lparr>cells = {(0, 1), (1, 1)}, count = 5\<rparr>,
                      \<lparr>cells = {(0, 1), (1, 1), (1, 2)}, count = 1\<rparr>,
                      \<lparr>cells = {(0, 1), (1, 1)}, count = 5\<rparr>,
                      \<lparr>cells = {(1, 2)}, count = - 4\<rparr>]\<rparr> \<and>
   add_knowledge \<lparr>rows = 2, cols = 3, moves_made = {(1, 0), (0, 2), (0, 0)}, mines = {},
         safes = {(1, 0), (0, 2), (0, 0)},
         knowledge = [\<lparr>cells = {(0, 1), (1, 1)}, count = 5\<rparr>,
                      \<lparr>cells = {(0, 1), (1, 1), (1, 2)}, count = 1\<rparr>,
                      \<lparr>cells = {(0, 1), (1, 1)}, count = 5\<rparr>,
                      \<lparr>cells = {(1, 2)}, count = - 4\<rparr>]\<rparr> (1, 1) 4
     = None \<and>
   csp_get_action \<lparr>shuffle = (\<lambda>xs. xs), choice = hd\<rparr>
      (\<lambda>p. if p = (0, 0) then 5 else if p = (0, 2) then 1 else if p = (1, 0) then 5
            else if p = (1, 1) then 4 else - 2)
      (init_agent 2 3) = None"
proof -
  let ?obs = "\<lambda>p::cell. if p = (0, 0) then 5 else if p = (0, 2) then 1 else if p = (1, 0) then 5
            else if p = (1, 1) then (4::int) else - 2"
  let ?s1 = "\<lparr>rows = 2, cols = 3, moves_made = {(0, 0)}, mines = {}, safes = {(0, 0)},
      knowledge = [\<lparr>cells = {(0, 1), (1, 0), (1, 1)}, count = 5\<rparr>]\<rparr>"
  let ?s2 = "\<lparr>rows = 2, cols = 3, moves_made = {(0, 2), (0, 0)}, mines = {},
      safes = {(0, 2), (0, 0)},
      knowledge = [\<lparr>cells = {(0, 1), (1, 0), (1, 1)}, count = 5\<rparr>,
                   \<lparr>cells = {(0, 1), (1, 1), (1, 2)}, count = 1\<rparr>]\<rparr>"
  let ?s3 = "\<lparr>rows = 2, cols = 3, moves_made = {(1, 0), (0, 2), (0, 0)}, mines = {},
      safes = {(1, 0), (0, 2), (0, 0)},
      knowledge = [\<lparr>cells = {(0, 1), (1, 1)}, count = 5\<rparr>,
                   \<lparr>cells = {(0, 1), (1, 1), (1, 2)}, count = 1\<rparr>,
                   \<lparr>cells = {(0, 1), (1, 1)}, count = 5\<rparr>,
                   \<lparr>cells = {(1, 2)}, count = - 4\<rparr>]\<rparr>"
  let ?s4 = "\<lparr>rows = 2, cols = 3, moves_made = {(1, 1), (1, 0), (0, 2), (0, 0)},
      mines = {}, safes = {(1, 1), (1, 0), (0, 2), (0, 0)},
      knowledge = [\<lparr>cells = {(0, 1)}, count = 5\<rparr>, \<lparr>cells = {(0, 1), (1, 2)}, count = 1\<rparr>,
                   \<lparr>cells = {(0, 1)}, count = 5\<rparr>, \<lparr>cells = {(1, 2)}, count = - 4\<rparr>,
                   \<lparr>cells = {(0, 1), (1, 2)}, count = 4\<rparr>]\<rparr>"
  have g: "grid (init_agent 2 3) = [(0, 0), (0, 1), (0, 2), (1, 0), (1, 1), (1, 2)]"
    by code_simp
  have m0: "moves_made (init_agent 2 3) = {}"
    by (simp add: init_agent_def)
  have a1: "add_knowledge (init_agent 2 3) (0, 0) 5 = Some ?s1"
    by code_simp
  have a2: "add_knowledge ?s1 (0, 2) 1 = Some ?s2"
    by code_simp
  have a3: "add_knowledge ?s2 (1, 0) 5 = Some ?s3"
    by code_simp
  have a4: "add_sentence ?s3 (1, 1) 4 = ?s4"
    by code_simp
  have u: "unexplained (0, 1) (1, 2) ?s4"
    by (simp add: unexplained_def)
  have d: "add_knowledge ?s3 (1, 1) 4 = None"
    unfolding add_knowledge_def a4 using u by (rule unexplained_diverges)
  have "sync ?obs (grid (init_agent 2 3)) (init_agent 2 3) = None"
    unfolding g by (simp add: m0 a1 a2 a3 d)
  then have e: "csp_get_action \<lparr>shuffle = (\<lambda>xs. xs), choice = hd\<rparr> ?obs (init_agent 2 3) = None"
    by (simp add: csp_get_action_def)
  show ?thesis
    by (intro conjI a1 a2 a3 d e)
qed

section \<open>The loop over the components picks a least estimate\<close>

lemma best_over_least:
  fixes exact approx :: "cell list \<Rightarrow> estimate"
  defines "E \<equiv> estimate_component exact approx"
  shows "(best_over exact approx comps best = best \<and>
            (\<forall>c\<in>set comps. \<not> (fst (E c) \<noteq> None \<and> snd (E c) < snd best))) \<or>
         (\<exists>c\<in>set comps. best_over exact approx comps best = E c \<and> fst (E c) \<noteq> None \<and>
            snd (E c) < snd best \<and>
            (\<forall>d\<in>set comps. fst (E d) \<noteq> None \<longrightarrow> snd (E c) \<le> snd (E d)))"
proof (induction comps arbitrary: best)
  case Nil
  show ?case by simp
next
  case (Cons x comps)
  show ?case
  proof (cases "fst (E x) \<noteq> None \<and> snd (E x) < snd best")
    case True
    have step: "best_over exact approx (x # comps) best = best_over exact approx comps (E x)"
      using True by (cases "E x") (simp add: E_def)
    from Cons.IH[of "E x"] show ?thesis
    proof
      assume a: "best_over exact approx comps (E x) = E x \<and>
            (\<forall>c\<in>set comps. \<not> (fst (E c) \<noteq> None \<and> snd (E c) < snd (E x)))"
      have "\<forall>d\<in>set (x # comps). fst (E d) \<noteq> None \<longrightarrow> snd (E x) \<le> snd (E d)"
        using a by (auto simp: not_less)
      then have "\<exists>c\<in>set (x # comps). best_over exact approx (x # comps) best = E c \<and> fst (E c) \<noteq> None \<and>
            snd (E c) < snd best \<and>
            (\<forall>d\<in>set (x # comps). fst (E d) \<noteq> None \<longrightarrow> snd (E c) \<le> snd (E d))"
        using a True step by (intro bexI[of _ x]) simp_all
      then show ?thesis ..
    next
      assume "\<exists>c\<in>set comps. best_over exact approx comps (E x) = E c \<and> fst (E c) \<noteq> None \<and>
            snd (E c) < snd (E x) \<and>
            (\<forall>d\<in>set comps. fst (E d) \<noteq> None \<longrightarrow> snd (E c) \<le> snd (E d))"
      then obtain c where c: "c \<in> set comps" "best_over exact approx comps (E x) = E c"
        "fst (E c) \<noteq> None" "snd (E c) < snd (E x)"
        "\<And>d. d \<in> set comps \<Longrightarrow> fst (E d) \<noteq> None \<Longrightarrow> snd (E c) \<le> snd (E d)"
        by blast
      have m: "\<forall>d\<in>set (x # comps). fst (E d) \<noteq> None \<longrightarrow> snd (E c) \<le> snd (E d)"
        using c(4,5) by auto
      have "snd (E c) < snd best"
        using c(4) True by simp
      then have "\<exists>c\<in>set (x # comps). best_over exact approx (x # comps) best = E c \<and> fst (E c) \<noteq> None \<and>
            snd (E c) < snd best \<and>
            (\<forall>d\<in>set (x # comps). fst (E d) \<noteq> None \<longrightarrow> snd (E c) \<le> snd (E d))"
        using c(1,2,3) m step by (intro bexI[of _ c]) simp_all
      then show ?thesis ..
    qed
  next
    case False
    have step: "best_over exact approx (x # comps) best = best_over exact approx comps best"
      using False by (cases "E x") (auto simp: E_def)
    from Cons.IH[of best] show ?thesis
    proof
      assume a: "best_over exact approx comps best = best \<and>
            (\<forall>c\<in>set comps. \<not> (fst (E c) \<noteq> None \<and> snd (E c) < snd best))"
      have "\<forall>c\<in>set (x # comps). \<not> (fst (E c) \<noteq> None \<and> snd (E c) < snd best)"
        using a False by simp
      then show ?thesis
        using a step by simp
    next
      assume "\<exists>c\<in>set comps. best_over exact approx comps best = E c \<and> fst (E c) \<noteq> None \<and>
            snd (E c) < snd best \<and>
            (\<forall>d\<in>set comps. fst (E d) \<noteq> None \<longrightarrow> snd (E c) \<le> snd (E d))"
      then obtain c where c: "c \<in> set comps" "best_over exact approx comps best = E c"
        "fst (E c) \<noteq> None" "snd (E c) < snd best"
        "\<And>d. d \<in> set comps \<Longrightarrow> fst (E d) \<noteq> None \<Longrightarrow> snd (E c) \<le> snd (E d)"
        by blast
      have "snd (E c) \<le> snd (E x)" if "fst (E x) \<noteq> None"
        using False that c(4) by simp
      then have m: "\<forall>d\<in>set (x # comps). fst (E d) \<noteq> None \<longrightarrow> snd (E c) \<le> snd (E d)"
        using c(5) by auto
      have "\<exists>c\<in>set (x # comps). best_over exact approx (x # comps) best = E c \<and> fst (E c) \<noteq> None \<and>
            snd (E c) < snd best \<and>
            (\<forall>d\<in>set (x # comps). fst (E d) \<noteq> None \<longrightarrow> snd (E c) \<le> snd (E d))"
        using c(1,2,3,4) m step by (intro bexI[of _ c]) simp_all
      then show ?thesis ..
    qed
  qed
qed

lemma probability_choose_picks_least:
  assumes "safe_move a = None" "fringe_list a \<noteq> []"
    and "get_components (knowledge a) (fringe_list a) = Inr comps"
  shows "picks_least (estimate_component exact approx) comps g a (probability_choose exact approx g a)"
proof -
  let ?E = "estimate_component exact approx"
  let ?r = "best_over exact approx comps (None, 1)"
  have pc: "probability_choose exact approx g a =
      (case fst ?r of Some move \<Rightarrow> Inr (Some (fst move, snd move, 0))
       | None \<Rightarrow> Inr (get_smart_guess g a))"
    using assms by (simp add: probability_choose_def)
  from best_over_least[of exact approx comps "(None, 1)"]
  show ?thesis
  proof
    assume a: "?r = (None, 1) \<and> (\<forall>c\<in>set comps. \<not> (fst (?E c) \<noteq> None \<and> snd (?E c) < snd (None :: cell option, 1 :: rat)))"
    then have n: "\<not> (\<exists>c\<in>set comps. fst (?E c) \<noteq> None \<and> snd (?E c) < 1)"
      by simp
    have r: "probability_choose exact approx g a = Inr (get_smart_guess g a)"
      using a pc by simp
    show ?thesis
      unfolding picks_least_def if_not_P[OF n] by (rule r)
  next
    assume "\<exists>c\<in>set comps. ?r = ?E c \<and> fst (?E c) \<noteq> None \<and> snd (?E c) < snd (None :: cell option, 1 :: rat) \<and>
            (\<forall>d\<in>set comps. fst (?E d) \<noteq> None \<longrightarrow> snd (?E c) \<le> snd (?E d))"
    then obtain c where c: "c \<in> set comps" "?r = ?E c" "fst (?E c) \<noteq> None" "snd (?E c) < 1"
      "\<forall>d\<in>set comps. fst (?E d) \<noteq> None \<longrightarrow> snd (?E c) \<le> snd (?E d)"
      by auto
    obtain move where mv: "fst (?E c) = Some move"
      using c(3) by auto
    have e: "?E c = (Some move, snd (?E c))"
      using mv by (cases "?E c") simp
    have res: "probability_choose exact approx g a = Inr (Some (fst move, snd move, 0))"
      using pc c(2) mv by simp
    have ex: "\<exists>c\<in>set comps. fst (?E c) \<noteq> None \<and> snd (?E c) < 1"
      using c(1,3,4) by blast
    have r: "\<exists>c\<in>set comps. \<exists>move.
             ?E c = (Some move, snd (?E c)) \<and> snd (?E c) < 1 \<and>
             (\<forall>d\<in>set comps. fst (?E d) \<noteq> None \<longrightarrow> snd (?E c) \<le> snd (?E d)) \<and>
             probability_choose exact approx g a = Inr (Some (fst move, snd move, 0))"
      using c(1) e c(4) c(5) res by blast
    show ?thesis
      unfolding picks_least_def if_P[OF ex] by (rule r)
  qed
qed

section \<open>The approximate estimators under fixed draws\<close>

lemma collect_sample_add:
  "collect_sample xs st mc = (\<lambda>c. mc c + count_list (filter (\<lambda>x. st x = Some 1) xs) c)"
proof (induction xs arbitrary: mc)
  case Nil
  show ?case by (simp add: collect_sample_def)
next
  case (Cons x xs)
  have "collect_sample (x # xs) st mc
      = collect_sample xs st (if st x = Some 1 then mc(x := mc x + 1) else mc)"
    by (simp add: collect_sample_def)
  also have "\<dots> = (\<lambda>c. (if st x = Some 1 then mc(x := mc x + 1) else mc) c
                         + count_list (filter (\<lambda>x. st x = Some 1) xs) c)"
    by (rule Cons.IH)
  also have "\<dots> = (\<lambda>c. mc c + count_list (filter (\<lambda>x. st x = Some 1) (x # xs)) c)"
    by (rule ext) simp
  finally show ?case .
qed

lemma count_world_valid:
  assumes "check_consistent (assignment comp_list p) rel"
  shows "count_world comp_list rel p (v, mc)
           = (v + 1, collect_sample comp_list (assignment comp_list p) mc)"
  using assms by (simp add: count_world_def collect_sample_def)

lemma count_world_invalid:
  assumes "\<not> check_consistent (assignment comp_list p) rel"
  shows "count_world comp_list rel p acc = acc"
  using assms by (cases acc) (simp add: count_world_def)

lemma samples_all_equal:
  assumes "\<And>i. i < n \<Longrightarrow> P i = p"
    and "check_consistent (assignment comp_list p) rel"
  shows "fold (\<lambda>i. count_world comp_list rel (P i)) [0 ..< n] (v, mc)
           = (v + n, \<lambda>c. mc c + n * count_list (filter (\<lambda>x. assignment comp_list p x = Some 1) comp_list) c)"
  using assms(1)
proof (induction n)
  case 0
  show ?case by simp
next
  case (Suc n)
  have ih: "fold (\<lambda>i. count_world comp_list rel (P i)) [0 ..< n] (v, mc)
           = (v + n, \<lambda>c. mc c + n * count_list (filter (\<lambda>x. assignment comp_list p x = Some 1) comp_list) c)"
    using Suc.prems by (intro Suc.IH) simp
  have pn: "P n = p"
    using Suc.prems by simp
  show ?case
    by (simp add: ih pn count_world_valid[OF assms(2)] collect_sample_add algebra_simps)
qed

lemma samples_all_invalid:
  assumes "\<And>i. i < n \<Longrightarrow> \<not> check_consistent (assignment comp_list (P i)) rel"
  shows "fold (\<lambda>i. count_world comp_list rel (P i)) [0 ..< n] acc = acc"
  using assms
proof (induction n)
  case 0
  show ?case by simp
next
  case (Suc n)
  have ih: "fold (\<lambda>i. count_world comp_list rel (P i)) [0 ..< n] acc = acc"
    using Suc.prems by (intro Suc.IH) simp
  show ?case
    using Suc.prems[of n] by (simp add: ih count_world_invalid)
qed

lemma best_cell_scale:
  assumes "0 < n"
  shows "best_cell xs n (\<lambda>c. n * d c) = best_cell xs 1 d"
proof -
  have "(of_nat (n * d c) :: rat) / of_nat n = of_nat (d c) / of_nat 1" for c
    using assms by simp
  then show ?thesis
    unfolding best_cell_def by (simp only:)
qed

lemma monte_carlo_all_equal:
  assumes "\<And>i. i < 5000 \<Longrightarrow> random_pattern (length comp_list) bits i = p"
    and "check_consistent (assignment comp_list p) (relevant_knowledge K comp_list)"
  shows "solve_component_monte_carlo K comp_list bits
           = best_cell comp_list 1
               (count_list (filter (\<lambda>x. assignment comp_list p x = Some 1) comp_list))"
proof -
  have "solve_component_monte_carlo K comp_list bits
      = best_cell comp_list 5000
          (\<lambda>c. 5000 * count_list (filter (\<lambda>x. assignment comp_list p x = Some 1) comp_list) c)"
    unfolding solve_component_monte_carlo_def sample_worlds_def
    by (simp add: samples_all_equal[where P = "random_pattern (length comp_list) bits", OF assms])
  moreover have "0 < (5000::nat)"
    by simp
  ultimately show ?thesis
    by (simp only: best_cell_scale)
qed

lemma monte_carlo_all_invalid:
  assumes "\<And>i. i < 5000 \<Longrightarrow>
      \<not> check_consistent (assignment comp_list (random_pattern (length comp_list) bits i))
          (relevant_knowledge K comp_list)"
  shows "solve_component_monte_carlo K comp_list bits = (None, 1)"
  unfolding solve_component_monte_carlo_def sample_worlds_def
  by (simp add: samples_all_invalid[where P = "random_pattern (length comp_list) bits", OF assms])

lemma flip_flip: "st c \<noteq> None \<Longrightarrow> flip (flip st c) c = st"
  by (auto simp: flip_def fun_eq_iff)

lemma anneal_step_rejected:
  assumes e: "calc_energy rel st = 0"
    and up: "\<And>c. c \<in> set comp_list \<Longrightarrow> 0 < calc_energy rel (flip st c)"
    and dm: "\<And>c. c \<in> set comp_list \<Longrightarrow> st c \<noteq> None"
    and na: "\<not> accept src k"
    and ne: "comp_list \<noteq> []"
  shows "anneal_step comp_list rel src k (st, 0, v, mc)
           = (st, 0, v + 1, collect_sample comp_list st mc)"
proof -
  let ?c = "comp_list ! (flip_choice src k mod length comp_list)"
  have m: "?c \<in> set comp_list"
    using ne by (intro nth_mem) simp
  have "\<not> calc_energy rel (flip st ?c) \<le> 0"
    using up[OF m] by simp
  moreover have "flip (flip st ?c) ?c = st"
    using dm[OF m] by (rule flip_flip)
  ultimately show ?thesis
    using na by (simp add: anneal_step_def Let_def)
qed

lemma anneal_stationary:
  assumes e: "calc_energy rel st = 0"
    and up: "\<And>c. c \<in> set comp_list \<Longrightarrow> 0 < calc_energy rel (flip st c)"
    and dm: "\<And>c. c \<in> set comp_list \<Longrightarrow> st c \<noteq> None"
    and na: "\<And>k. \<not> accept src k"
    and ne: "comp_list \<noteq> []"
  shows "fold (anneal_step comp_list rel src) [0 ..< n] (st, 0, v, mc)
           = (st, 0, v + n, \<lambda>c. mc c + n * count_list (filter (\<lambda>x. st x = Some 1) comp_list) c)"
proof (induction n)
  case 0
  show ?case by simp
next
  case (Suc n)
  show ?case
    by (simp add: Suc.IH anneal_step_rejected[OF e up dm na ne] collect_sample_add algebra_simps)
qed

lemma mcmc_stationary:
  assumes "st = assignment comp_list (map (\<lambda>j. if initial_bit src j then 1 else 0) [0 ..< length comp_list])"
    and e: "calc_energy (relevant_knowledge K comp_list) st = 0"
    and up: "\<And>c. c \<in> set comp_list \<Longrightarrow> 0 < calc_energy (relevant_knowledge K comp_list) (flip st c)"
    and dm: "\<And>c. c \<in> set comp_list \<Longrightarrow> st c \<noteq> None"
    and na: "\<And>k. \<not> accept src k"
    and ne: "comp_list \<noteq> []"
  shows "solve_component_mcmc K comp_list src
           = best_cell comp_list 1 (count_list (filter (\<lambda>x. st x = Some 1) comp_list))"
proof -
  have "anneal K comp_list src
      = fold (anneal_step comp_list (relevant_knowledge K comp_list) src) [0 ..< 15000] (st, 0, 0, \<lambda>_. 0)"
    unfolding anneal_def Let_def assms(1)[symmetric] e ..
  also have "\<dots> = (st, 0, 0 + 15000,
       \<lambda>c. 0 + 15000 * count_list (filter (\<lambda>x. st x = Some 1) comp_list) c)"
    by (rule anneal_stationary[OF e up dm na ne])
  finally have "solve_component_mcmc K comp_list src
      = best_cell comp_list 15000
          (\<lambda>c. 15000 * count_list (filter (\<lambda>x. st x = Some 1) comp_list) c)"
    by (simp add: solve_component_mcmc_def)
  moreover have "0 < (15000::nat)"
    by simp
  ultimately show ?thesis
    by (simp only: best_cell_scale)
qed

section \<open>The exact estimator on a component that is all safe\<close>

lemma fold_upd_step:
  "fold (\<lambda>(c, v) m. m(c \<mapsto> v)) (zip (x # xs) (y # ys)) m
     = fold (\<lambda>(c, v) m. m(c \<mapsto> v)) (zip xs ys) (m(x \<mapsto> y))"
  by (simp only: zip_Cons_Cons fold_simps comp_apply prod.case)

lemma fold_upd_notin:
  "c \<notin> set xs \<Longrightarrow> fold (\<lambda>(c, v) m. m(c \<mapsto> v)) (zip xs ys) m c = m c"
proof (induction xs arbitrary: ys m)
  case Nil
  show ?case by simp
next
  case (Cons x xs)
  show ?case
  proof (cases ys)
    case Nil
    then show ?thesis by simp
  next
    case (Cons y ys')
    have "fold (\<lambda>(c, v) m. m(c \<mapsto> v)) (zip xs ys') (m(x \<mapsto> y)) c = (m(x \<mapsto> y)) c"
      using Cons.prems by (intro Cons.IH) simp
    also have "\<dots> = m c"
      using Cons.prems by simp
    finally show ?thesis
      unfolding Cons fold_upd_step .
  qed
qed

lemma assignment_values:
  assumes "length xs = length ys" "distinct xs"
  shows "map (assignment xs ys) xs = map Some ys"
proof -
  have "map (fold (\<lambda>(c, v) m. m(c \<mapsto> v)) (zip xs ys) m) xs = map Some ys" for m
    using assms
  proof (induction xs ys arbitrary: m rule: list_induct2)
    case Nil
    show ?case by simp
  next
    case (Cons x xs y ys)
    have "fold (\<lambda>(c, v) m. m(c \<mapsto> v)) (zip xs ys) (m(x \<mapsto> y)) x = (m(x \<mapsto> y)) x"
      using Cons.prems by (intro fold_upd_notin) simp
    then have h: "fold (\<lambda>(c, v) m. m(c \<mapsto> v)) (zip xs ys) (m(x \<mapsto> y)) x = Some y"
      by simp
    have t: "map (fold (\<lambda>(c, v) m. m(c \<mapsto> v)) (zip xs ys) (m(x \<mapsto> y))) xs = map Some ys"
      using Cons.prems by (intro Cons.IH) simp
    show ?case
      unfolding fold_upd_step by (simp only: list.map h t)
  qed
  then show ?thesis
    by (simp only: assignment_def)
qed

lemma assignment_at:
  assumes "length xs = length ys" "distinct xs" "c \<in> set xs"
  shows "\<exists>v\<in>set ys. assignment xs ys c = Some v"
proof -
  have "assignment xs ys c \<in> set (map (assignment xs ys) xs)"
    using assms(3) by simp
  then have "assignment xs ys c \<in> set (map Some ys)"
    by (simp only: assignment_values[OF assms(1,2)])
  then show ?thesis
    by auto
qed

lemma mine_count_assignment:
  assumes "length xs = length ys" "distinct xs" "cells s = set xs"
  shows "mine_count (assignment xs ys) s = sum_list ys"
proof -
  let ?f = "\<lambda>w. case w of Some v \<Rightarrow> v | None \<Rightarrow> (0::int)"
  have "mine_count (assignment xs ys) s = sum_list (map (\<lambda>c. ?f (assignment xs ys c)) xs)"
    unfolding mine_count_def assms(3) by (rule sum.distinct_set_conv_list[OF assms(2)])
  also have "\<dots> = sum_list (map ?f (map (assignment xs ys) xs))"
    by (simp add: comp_def)
  also have "\<dots> = sum_list (map ?f (map Some ys))"
    by (simp only: assignment_values[OF assms(1,2)])
  also have "\<dots> = sum_list ys"
    by (simp add: comp_def)
  finally show ?thesis .
qed

lemma unknowns_assignment:
  assumes "length xs = length ys" "distinct xs" "cells s = set xs"
  shows "unknowns (assignment xs ys) s = 0"
proof -
  have "Set.filter (\<lambda>c. assignment xs ys c = None) (set xs) = {}"
    using assignment_at[OF assms(1,2)] by fastforce
  then show ?thesis
    by (simp add: unknowns_def assms(3))
qed

lemma patterns_shape: "p \<in> set (patterns n) \<Longrightarrow> length p = n \<and> set p \<subseteq> {0, 1}"
proof (induction n arbitrary: p)
  case 0
  then show ?case by simp
next
  case (Suc n)
  then obtain b q where q: "p = b # q" "q \<in> set (patterns n)" "b = 0 \<or> b = 1"
    by auto
  have "length q = n \<and> set q \<subseteq> {0, 1}"
    using q(2) by (rule Suc.IH)
  then show ?case
    using q(1,3) by auto
qed

lemma patterns_one_zero: "length (filter (\<lambda>p. p = replicate n 0) (patterns n)) = 1"
proof (induction n)
  case 0
  show ?case by simp
next
  case (Suc n)
  have a: "filter (\<lambda>p. p = replicate (Suc n) 0) (map ((#) 0) (patterns n))
      = map ((#) 0) (filter (\<lambda>p. p = replicate n 0) (patterns n))"
    by (simp add: filter_map comp_def)
  have b: "filter (\<lambda>p. p = replicate (Suc n) 0) (map ((#) 1) (patterns n)) = []"
    by (simp add: filter_map comp_def)
  show ?case
    by (simp only: patterns.simps filter_append a b length_append length_map Suc.IH) simp
qed

lemma all_safe_valid:
  assumes "distinct xs" "cells s = set xs" "count s = 0" "length p = length xs" "set p \<subseteq> {0, 1}"
  shows "check_consistent (assignment xs p) [s] \<longleftrightarrow> p = replicate (length xs) 0"
proof -
  have mc: "mine_count (assignment xs p) s = sum_list p"
    using assms by (intro mine_count_assignment) simp_all
  have un: "unknowns (assignment xs p) s = 0"
    using assms by (intro unknowns_assignment) simp_all
  have "sum_list p = 0 \<longleftrightarrow> (\<forall>x\<in>set p. x = 0)"
    using assms(5) by (intro sum_list_nonneg_eq_0_iff) auto
  also have "\<dots> \<longleftrightarrow> p = replicate (length xs) 0"
    using assms(4) by (metis replicate_eqI in_set_replicate)
  finally have z: "sum_list p = 0 \<longleftrightarrow> p = replicate (length xs) 0" .
  have "check_consistent (assignment xs p) [s] \<longleftrightarrow> sum_list p = 0"
    by (auto simp: mc un assms(3))
  then show ?thesis
    using z by simp
qed

lemma all_safe_tally:
  assumes "distinct xs"
  shows "collect_sample xs (assignment xs (replicate (length xs) 0)) mc = mc"
proof -
  have "assignment xs (replicate (length xs) 0) c \<noteq> Some 1" if "c \<in> set xs" for c
    using assignment_at[of xs "replicate (length xs) 0" c] assms that by auto
  then have "filter (\<lambda>x. assignment xs (replicate (length xs) 0) x = Some 1) xs = []"
    by (simp add: filter_empty_conv)
  then show ?thesis
    by (simp add: collect_sample_add)
qed

lemma all_safe_fold:
  assumes "distinct xs" "cells s = set xs" "count s = 0"
    and "\<And>p. p \<in> set ps \<Longrightarrow> length p = length xs \<and> set p \<subseteq> {0, 1}"
  shows "fold (count_world xs [s]) ps (v, mc)
           = (v + length (filter (\<lambda>p. p = replicate (length xs) 0) ps), mc)"
  using assms(4)
proof (induction ps arbitrary: v)
  case Nil
  show ?case by simp
next
  case (Cons p ps)
  have sh: "length p = length xs" "set p \<subseteq> {0, 1}"
    using Cons.prems[of p] by simp_all
  have ih: "fold (count_world xs [s]) ps (w, mc)
           = (w + length (filter (\<lambda>p. p = replicate (length xs) 0) ps), mc)" for w
    using Cons.prems by (intro Cons.IH) simp
  show ?case
  proof (cases "p = replicate (length xs) 0")
    case True
    have "check_consistent (assignment xs p) [s]"
      using all_safe_valid[OF assms(1,2,3) sh] True by simp
    then have "count_world xs [s] p (v, mc) = (v + 1, mc)"
      using all_safe_tally[OF assms(1), of mc] True by (simp add: count_world_valid)
    then show ?thesis
      using True by (simp add: ih)
  next
    case False
    have "\<not> check_consistent (assignment xs p) [s]"
      using all_safe_valid[OF assms(1,2,3) sh] False by simp
    then have "count_world xs [s] p (v, mc) = (v, mc)"
      by (rule count_world_invalid)
    then show ?thesis
      using False by (simp add: ih)
  qed
qed

lemma exact_all_safe:
  assumes "distinct xs" "relevant_knowledge K xs = [s]" "cells s = set xs" "count s = 0"
  shows "solve_component_exact K xs = best_cell xs 1 (\<lambda>_. 0)"
proof -
  have "count_worlds K xs
      = (0 + length (filter (\<lambda>p. p = replicate (length xs) 0) (patterns (length xs))), \<lambda>_. 0)"
    unfolding count_worlds_def assms(2)
    using patterns_shape by (intro all_safe_fold[OF assms(1,3,4)]) blast
  then have "count_worlds K xs = (1, \<lambda>_. 0)"
    by (simp only: patterns_one_zero) simp
  then show ?thesis
    by (simp add: solve_component_exact_def)
qed

section \<open>Routing of a component to an estimator inside get\_action\<close>

text \<open>
  C6. In \<open>get_action\<close> of the hybrid and of the MCMC agent a component of at most 18 cells
  is estimated by the exact enumeration and a component of more than 18 cells by the
  agent's approximate estimator, Monte Carlo sampling in the hybrid agent and simulated
  annealing in the MCMC agent, and the action returned is made from these estimates:
  with no known safe cell left to play and a frontier that is not empty, the agent
  reveals the cell of a component whose estimate, exact up to 18 cells and approximate
  above, has a probability below 1 that is least among the estimates that hold a cell,
  and falls back to \<open>get_smart_guess\<close> when no component has such an estimate. The choice
  between the estimators looks at the number of cells only, so the result does not depend
  on what the exact estimator would return above 18 cells nor on what the approximate
  one would return on 18 cells or fewer.
\<close>

theorem estimator_routing:
  "(card component \<le> 18 \<longrightarrow>
      estimate_component exact approx component = exact (sorted_list_of_set component)) \<and>
   (18 < card component \<longrightarrow>
      estimate_component exact approx component = approx (sorted_list_of_set component)) \<and>
   ((\<forall>xs. length xs \<le> 18 \<longrightarrow> exact xs = exact' xs) \<and>
    (\<forall>xs. 18 < length xs \<longrightarrow> approx xs = approx' xs) \<longrightarrow>
      best_over exact approx comps best = best_over exact' approx' comps best \<and>
      probability_choose exact approx g a = probability_choose exact' approx' g a) \<and>
   ((\<forall>xs. 18 < length xs \<longrightarrow> approx xs = approx' xs) \<longrightarrow>
      hybrid_choose approx g a = hybrid_choose approx' g a \<and>
      mcmc_choose approx g a = mcmc_choose approx' g a) \<and>
   (safe_move a = None \<and> fringe_list a \<noteq> [] \<and>
    get_components (knowledge a) (fringe_list a) = Inr components \<longrightarrow>
      picks_least
        (\<lambda>c. if card c \<le> 18 then solve_component_exact (knowledge a) (sorted_list_of_set c)
              else solve_component_monte_carlo (knowledge a) (sorted_list_of_set c)
                     (bits (sorted_list_of_set c)))
        components g a (hybrid_agent_choose bits g a) \<and>
      picks_least
        (\<lambda>c. if card c \<le> 18 then solve_component_exact (knowledge a) (sorted_list_of_set c)
              else solve_component_mcmc (knowledge a) (sorted_list_of_set c)
                     (src (sorted_list_of_set c)))
        components g a (mcmc_agent_choose src g a))"
proof (intro conjI impI)
  show "estimate_component exact approx component = exact (sorted_list_of_set component)"
    if "card component \<le> 18"
    using that by (simp add: estimate_component_def)
  show "estimate_component exact approx component = approx (sorted_list_of_set component)"
    if "18 < card component"
    using that by (simp add: estimate_component_def)
  show "best_over exact approx comps best = best_over exact' approx' comps best"
    if "(\<forall>xs. length xs \<le> 18 \<longrightarrow> exact xs = exact' xs) \<and>
        (\<forall>xs. 18 < length xs \<longrightarrow> approx xs = approx' xs)"
    using that by (intro best_over_cong) simp_all
  show "probability_choose exact approx g a = probability_choose exact' approx' g a"
    if "(\<forall>xs. length xs \<le> 18 \<longrightarrow> exact xs = exact' xs) \<and>
        (\<forall>xs. 18 < length xs \<longrightarrow> approx xs = approx' xs)"
    using that by (intro probability_choose_cong) simp_all
  show "hybrid_choose approx g a = hybrid_choose approx' g a"
    if "\<forall>xs. 18 < length xs \<longrightarrow> approx xs = approx' xs"
    unfolding hybrid_choose_def using that by (intro probability_choose_cong) simp_all
  show "mcmc_choose approx g a = mcmc_choose approx' g a"
    if "\<forall>xs. 18 < length xs \<longrightarrow> approx xs = approx' xs"
    unfolding mcmc_choose_def using that by (intro probability_choose_cong) simp_all
next
  assume h: "safe_move a = None \<and> fringe_list a \<noteq> [] \<and>
    get_components (knowledge a) (fringe_list a) = Inr components"
  have e: "estimate_component exact approx
      = (\<lambda>c. if card c \<le> 18 then exact (sorted_list_of_set c) else approx (sorted_list_of_set c))"
    for exact approx :: "cell list \<Rightarrow> estimate"
    by (rule ext) (simp add: estimate_component_def)
  show "picks_least
        (\<lambda>c. if card c \<le> 18 then solve_component_exact (knowledge a) (sorted_list_of_set c)
              else solve_component_monte_carlo (knowledge a) (sorted_list_of_set c)
                     (bits (sorted_list_of_set c)))
        components g a (hybrid_agent_choose bits g a)"
    using probability_choose_picks_least[of a components "solve_component_exact (knowledge a)"
        "\<lambda>xs. solve_component_monte_carlo (knowledge a) xs (bits xs)" g] h
    unfolding hybrid_agent_choose_def hybrid_choose_def e by simp
  show "picks_least
        (\<lambda>c. if card c \<le> 18 then solve_component_exact (knowledge a) (sorted_list_of_set c)
              else solve_component_mcmc (knowledge a) (sorted_list_of_set c)
                     (src (sorted_list_of_set c)))
        components g a (mcmc_agent_choose src g a)"
    using probability_choose_picks_least[of a components "solve_component_exact (knowledge a)"
        "\<lambda>xs. solve_component_mcmc (knowledge a) xs (src xs)" g] h
    unfolding mcmc_agent_choose_def mcmc_choose_def e by simp
qed

theorem estimator_routing_witness:
  "hybrid_agent_choose (\<lambda>xs k. k mod 19 = 0) \<lparr>shuffle = (\<lambda>xs. xs), choice = hd\<rparr>
      \<lparr>rows = 2, cols = 19, moves_made = {}, mines = {}, safes = {},
        knowledge = [\<lparr>cells = {(0, 0), (0, 1)}, count = 1\<rparr>,
                     \<lparr>cells = set (map (Pair 1) [0 .. 18]), count = 1\<rparr>]\<rparr>
     = Inr (Some (1, 1, 0)) \<and>
   mcmc_agent_choose
      (\<lambda>xs. \<lparr>initial_bit = (\<lambda>j. j = 1), flip_choice = (\<lambda>k. k), accept = (\<lambda>k. False)\<rparr>)
      \<lparr>shuffle = (\<lambda>xs. xs), choice = hd\<rparr>
      \<lparr>rows = 2, cols = 19, moves_made = {}, mines = {}, safes = {},
        knowledge = [\<lparr>cells = {(0, 0), (0, 1)}, count = 1\<rparr>,
                     \<lparr>cells = set (map (Pair 1) [0 .. 18]), count = 1\<rparr>]\<rparr>
     = Inr (Some (1, 0, 0)) \<and>
   hybrid_agent_choose (\<lambda>xs k. False) \<lparr>shuffle = (\<lambda>xs. xs), choice = hd\<rparr>
      \<lparr>rows = 2, cols = 20, moves_made = {}, mines = {}, safes = {},
        knowledge = [\<lparr>cells = set (map (Pair 0) [0 .. 17]), count = 0\<rparr>,
                     \<lparr>cells = set (map (Pair 1) [0 .. 19]), count = 1\<rparr>]\<rparr>
     = Inr (Some (0, 0, 0)) \<and>
   solve_component_exact
      [\<lparr>cells = {(0, 0), (0, 1)}, count = 1\<rparr>, \<lparr>cells = set (map (Pair 1) [0 .. 18]), count = 1\<rparr>]
      [(0, 0), (0, 1)] = (Some (0, 0), 1 / 2) \<and>
   solve_component_monte_carlo
      [\<lparr>cells = {(0, 0), (0, 1)}, count = 1\<rparr>, \<lparr>cells = set (map (Pair 1) [0 .. 18]), count = 1\<rparr>]
      (map (Pair 1) [0 .. 18]) (\<lambda>k. k mod 19 = 0) = (Some (1, 1), 0) \<and>
   solve_component_mcmc
      [\<lparr>cells = {(0, 0), (0, 1)}, count = 1\<rparr>, \<lparr>cells = set (map (Pair 1) [0 .. 18]), count = 1\<rparr>]
      (map (Pair 1) [0 .. 18])
      \<lparr>initial_bit = (\<lambda>j. j = 1), flip_choice = (\<lambda>k. k), accept = (\<lambda>k. False)\<rparr>
     = (Some (1, 0), 0) \<and>
   solve_component_exact
      [\<lparr>cells = set (map (Pair 0) [0 .. 17]), count = 0\<rparr>,
       \<lparr>cells = set (map (Pair 1) [0 .. 19]), count = 1\<rparr>]
      (map (Pair 0) [0 .. 17]) = (Some (0, 0), 0) \<and>
   solve_component_monte_carlo
      [\<lparr>cells = set (map (Pair 0) [0 .. 17]), count = 0\<rparr>,
       \<lparr>cells = set (map (Pair 1) [0 .. 19]), count = 1\<rparr>]
      (map (Pair 1) [0 .. 19]) (\<lambda>k. False) = (None, 1)"
proof -
  define g where "g = \<lparr>shuffle = (\<lambda>xs :: cell list. xs), choice = hd\<rparr>"
  define c2 :: "cell set" where "c2 = {(0, 0), (0, 1)}"
  define L18 :: "cell list" where "L18 = map (Pair 0) [0 .. 17]"
  define L19 :: "cell list" where "L19 = map (Pair 1) [0 .. 18]"
  define L20 :: "cell list" where "L20 = map (Pair 1) [0 .. 19]"
  define K0 where "K0 = [\<lparr>cells = c2, count = 1\<rparr>, \<lparr>cells = set L19, count = 1\<rparr>]"
  define K1 where "K1 = [\<lparr>cells = set L18, count = 0\<rparr>, \<lparr>cells = set L20, count = 1\<rparr>]"
  define a0 where "a0 = \<lparr>rows = 2, cols = 19, moves_made = {}, mines = {}, safes = {}, knowledge = K0\<rparr>"
  define a1 where "a1 = \<lparr>rows = 2, cols = 20, moves_made = {}, mines = {}, safes = {}, knowledge = K1\<rparr>"
  define bits :: "cell list \<Rightarrow> nat \<Rightarrow> bool" where "bits = (\<lambda>xs k. k mod 19 = 0)"
  define zero :: "cell list \<Rightarrow> nat \<Rightarrow> bool" where "zero = (\<lambda>xs k. False)"
  define src :: "cell list \<Rightarrow> annealing_source" where
    "src = (\<lambda>xs. \<lparr>initial_bit = (\<lambda>j. j = 1), flip_choice = (\<lambda>k. k), accept = (\<lambda>k. False)\<rparr>)"
  define st where "st = assignment L19 (map (\<lambda>j. if initial_bit (src L19) j then 1 else 0) [0 ..< length L19])"
  note defs = g_def c2_def L18_def L19_def L20_def K0_def K1_def a0_def a1_def
  have ka0: "knowledge a0 = K0" and ka1: "knowledge a1 = K1"
    by (simp_all add: a0_def a1_def)
  have len19: "length L19 = 19" and len20: "length L20 = 20"
    unfolding defs by code_simp+
  have sm0: "safe_move a0 = None"
    unfolding defs by code_simp
  have fr0: "fringe_list a0 \<noteq> []"
    unfolding defs by code_simp
  have gc0: "get_components (knowledge a0) (fringe_list a0) = Inr [c2, set L19]"
    unfolding defs by code_simp
  have sm1: "safe_move a1 = None"
    unfolding defs by code_simp
  have fr1: "fringe_list a1 \<noteq> []"
    unfolding defs by code_simp
  have gc1: "get_components (knowledge a1) (fringe_list a1) = Inr [set L18, set L20]"
    unfolding defs by code_simp
  have cd: "card c2 = 2" "card (set L18) = 18" "card (set L19) = 19" "card (set L20) = 20"
    unfolding defs by code_simp+
  have sl: "sorted_list_of_set c2 = [(0, 0), (0, 1)]" "sorted_list_of_set (set L18) = L18"
    "sorted_list_of_set (set L19) = L19" "sorted_list_of_set (set L20) = L20"
    unfolding defs by code_simp+
  text \<open>The exact estimator on the component of two cells.\<close>
  have ex2: "solve_component_exact K0 [(0, 0), (0, 1)] = (Some (0, 0), 1 / 2)"
    unfolding defs by code_simp
  text \<open>Monte Carlo on 19 cells, every sample with a mine at the first cell only.\<close>
  have pat: "random_pattern (length L19) (bits L19) i = map (\<lambda>j. if j = 0 then 1 else 0) [0 ..< 19]"
    if "i < 5000" for i
    unfolding random_pattern_def len19 bits_def by (rule map_cong) auto
  have ok: "check_consistent (assignment L19 (map (\<lambda>j. if j = 0 then 1 else 0) [0 ..< 19]))
      (relevant_knowledge K0 L19)"
    unfolding defs by code_simp
  have bc: "best_cell L19 1 (count_list (filter
      (\<lambda>x. assignment L19 (map (\<lambda>j. if j = 0 then 1 else 0) [0 ..< 19]) x = Some 1) L19))
      = (Some (1, 1), 0)"
    unfolding defs by code_simp
  have mc19: "solve_component_monte_carlo K0 L19 (bits L19) = (Some (1, 1), 0)"
    using monte_carlo_all_equal[of L19 "bits L19" _ K0, OF pat ok] bc by simp
  text \<open>Annealing on 19 cells from a state of energy 0, every proposal rejected.\<close>
  have e0: "calc_energy (relevant_knowledge K0 L19) st = 0"
    unfolding st_def src_def defs by code_simp
  have all: "list_all (\<lambda>c. 0 < calc_energy (relevant_knowledge K0 L19) (flip st c) \<and> st c \<noteq> None) L19"
    unfolding st_def src_def defs by code_simp
  have up: "0 < calc_energy (relevant_knowledge K0 L19) (flip st c)" and dm: "st c \<noteq> None"
    if "c \<in> set L19" for c
    using all that by (simp_all add: list_all_iff)
  have ne: "L19 \<noteq> []"
    using len19 by auto
  have na: "\<not> accept (src L19) k" for k
    by (simp add: src_def)
  have bs: "best_cell L19 1 (count_list (filter (\<lambda>x. st x = Some 1) L19)) = (Some (1, 0), 0)"
    unfolding st_def src_def defs by code_simp
  have sa19: "solve_component_mcmc K0 L19 (src L19) = (Some (1, 0), 0)"
    using mcmc_stationary[of st L19 "src L19" K0, OF st_def e0 up dm na ne] bs by simp
  text \<open>The exact estimator on 18 cells and Monte Carlo on 20 cells without valid sample.\<close>
  have d18: "distinct L18"
    unfolding defs by code_simp
  have rk: "relevant_knowledge K1 L18 = [\<lparr>cells = set L18, count = 0\<rparr>]"
    unfolding defs by code_simp
  have b18: "best_cell L18 1 (\<lambda>_. 0) = (Some (0, 0), 0)"
    unfolding defs by code_simp
  have ex18: "solve_component_exact K1 L18 = (Some (0, 0), 0)"
    using exact_all_safe[OF d18 rk] b18 by simp
  have z: "random_pattern (length L20) (zero L20) i = map (\<lambda>j. 0) [0 ..< 20]" for i
    unfolding random_pattern_def len20 zero_def by simp
  have bad: "\<not> check_consistent (assignment L20 (map (\<lambda>j. 0) [0 ..< 20])) (relevant_knowledge K1 L20)"
    unfolding defs by code_simp
  have mc20: "solve_component_monte_carlo K1 L20 (zero L20) = (None, 1)"
    by (rule monte_carlo_all_invalid) (simp only: z bad not_False_eq_True)
  text \<open>The three actions.\<close>
  note r0 = estimator_routing[where a = a0 and components = "[c2, set L19]" and g = g
      and bits = bits and src = src]
  have h0: "picks_least
        (\<lambda>c. if card c \<le> 18 then solve_component_exact (knowledge a0) (sorted_list_of_set c)
              else solve_component_monte_carlo (knowledge a0) (sorted_list_of_set c)
                     (bits (sorted_list_of_set c)))
        [c2, set L19] g a0 (hybrid_agent_choose bits g a0)"
    and m0: "picks_least
        (\<lambda>c. if card c \<le> 18 then solve_component_exact (knowledge a0) (sorted_list_of_set c)
              else solve_component_mcmc (knowledge a0) (sorted_list_of_set c)
                     (src (sorted_list_of_set c)))
        [c2, set L19] g a0 (mcmc_agent_choose src g a0)"
    using r0 sm0 fr0 gc0 by blast+
  have 1: "hybrid_agent_choose bits g a0 = Inr (Some (1, 1, 0))"
    using h0 unfolding picks_least_def by (simp add: cd sl ka0 ex2 mc19)
  have 2: "mcmc_agent_choose src g a0 = Inr (Some (1, 0, 0))"
    using m0 unfolding picks_least_def by (simp add: cd sl ka0 ex2 sa19)
  have h1: "picks_least
        (\<lambda>c. if card c \<le> 18 then solve_component_exact (knowledge a1) (sorted_list_of_set c)
              else solve_component_monte_carlo (knowledge a1) (sorted_list_of_set c)
                     (zero (sorted_list_of_set c)))
        [set L18, set L20] g a1 (hybrid_agent_choose zero g a1)"
    using estimator_routing[where a = a1 and components = "[set L18, set L20]" and g = g
      and bits = zero] sm1 fr1 gc1 by blast
  have 3: "hybrid_agent_choose zero g a1 = Inr (Some (0, 0, 0))"
    using h1 unfolding picks_least_def by (simp add: cd sl ka1 ex18 mc20)
  have "hybrid_agent_choose bits g a0 = Inr (Some (1, 1, 0)) \<and>
    mcmc_agent_choose src g a0 = Inr (Some (1, 0, 0)) \<and>
    hybrid_agent_choose zero g a1 = Inr (Some (0, 0, 0)) \<and>
    solve_component_exact K0 [(0, 0), (0, 1)] = (Some (0, 0), 1 / 2) \<and>
    solve_component_monte_carlo K0 L19 (bits L19) = (Some (1, 1), 0) \<and>
    solve_component_mcmc K0 L19 (src L19) = (Some (1, 0), 0) \<and>
    solve_component_exact K1 L18 = (Some (0, 0), 0) \<and>
    solve_component_monte_carlo K1 L20 (zero L20) = (None, 1)"
    using 1 2 3 ex2 mc19 sa19 ex18 mc20 by simp
  then show ?thesis
    unfolding bits_def zero_def src_def a0_def a1_def K0_def K1_def L18_def L19_def L20_def
      c2_def g_def .
qed

section \<open>A component without valid assignment is passed over\<close>

lemma picks_least_filter:
  assumes p: "picks_least est comps g a result"
    and n: "\<And>c. c \<in> set comps \<Longrightarrow> \<not> P c \<Longrightarrow> fst (est c) = None"
  shows "picks_least est (filter P comps) g a result"
proof (cases "\<exists>c\<in>set comps. fst (est c) \<noteq> None \<and> snd (est c) < 1")
  case True
  then obtain c move where c: "c \<in> set comps" "est c = (Some move, snd (est c))" "snd (est c) < 1"
    "\<forall>d\<in>set comps. fst (est d) \<noteq> None \<longrightarrow> snd (est c) \<le> snd (est d)"
    "result = Inr (Some (fst move, snd move, 0))"
    using p unfolding picks_least_def if_P[OF True] by blast
  have fc: "fst (est c) \<noteq> None"
    using c(2) by (metis fst_conv option.distinct(1))
  have pc: "P c"
    using n[OF c(1)] fc by auto
  have cf: "c \<in> set (filter P comps)"
    using c(1) pc by simp
  have ex: "\<exists>c\<in>set (filter P comps). fst (est c) \<noteq> None \<and> snd (est c) < 1"
    using cf fc c(3) by blast
  have m: "\<forall>d\<in>set (filter P comps). fst (est d) \<noteq> None \<longrightarrow> snd (est c) \<le> snd (est d)"
    using c(4) by simp
  have r: "\<exists>c\<in>set (filter P comps). \<exists>move.
             est c = (Some move, snd (est c)) \<and> snd (est c) < 1 \<and>
             (\<forall>d\<in>set (filter P comps). fst (est d) \<noteq> None \<longrightarrow> snd (est c) \<le> snd (est d)) \<and>
             result = Inr (Some (fst move, snd move, 0))"
    using cf c(2) c(3) m c(5) by blast
  show ?thesis
    unfolding picks_least_def if_P[OF ex] by (rule r)
next
  case False
  have r: "result = Inr (get_smart_guess g a)"
    using p unfolding picks_least_def if_not_P[OF False] .
  have nx: "\<not> (\<exists>c\<in>set (filter P comps). fst (est c) \<noteq> None \<and> snd (est c) < 1)"
    using False by auto
  show ?thesis
    unfolding picks_least_def if_not_P[OF nx] by (rule r)
qed

lemma probability_choose_skips_unsat:
  assumes "safe_move a = None" "fringe_list a \<noteq> []"
    and "get_components (knowledge a) (fringe_list a) = Inr comps"
  shows "picks_least (estimate_component (solve_component_exact (knowledge a)) approx)
           (filter (\<lambda>c. \<not> (card c \<le> 18 \<and>
                               fst (count_worlds (knowledge a) (sorted_list_of_set c)) = 0)) comps)
           g a (probability_choose (solve_component_exact (knowledge a)) approx g a)"
proof (rule picks_least_filter)
  show "picks_least (estimate_component (solve_component_exact (knowledge a)) approx) comps g a
      (probability_choose (solve_component_exact (knowledge a)) approx g a)"
    using assms by (rule probability_choose_picks_least)
  show "fst (estimate_component (solve_component_exact (knowledge a)) approx c) = None"
    if "\<not> \<not> (card c \<le> 18 \<and> fst (count_worlds (knowledge a) (sorted_list_of_set c)) = 0)" for c
    using that by (simp add: estimate_component_def solve_component_exact_unsat)
qed

lemma probability_choose_returns: "\<exists>result. probability_choose exact approx g a = Inr result"
proof -
  obtain comps where "get_components (knowledge a) (fringe_list a) = Inr comps"
    using get_components_partition[of "knowledge a" "fringe_list a"] by blast
  then show ?thesis
    by (simp add: probability_choose_def split: option.splits)
qed

lemma get_smart_guess_unplayed:
  assumes ch: "\<forall>xs. xs \<noteq> [] \<longrightarrow> choice g xs \<in> set xs"
    and sg: "get_smart_guess g a = Some (r, c, t)"
  shows "(r, c) \<notin> moves_made a \<and> (r, c) \<notin> mines a \<and> t = 0"
proof -
  let ?P = "\<lambda>p. p \<notin> moves_made a \<and> p \<notin> mines a"
  let ?corners = "filter ?P (shuffle g [(0, 0), (0, cols a - 1), (rows a - 1, 0), (rows a - 1, cols a - 1)])"
  let ?edges = "filter (\<lambda>p. (fst p = 0 \<or> fst p = rows a - 1 \<or> snd p = 0 \<or> snd p = cols a - 1)
                                  \<and> p \<notin> moves_made a \<and> p \<notin> mines a) (grid a)"
  have t: "t = 0"
    using sg by (rule get_smart_guess_reveal)
  have "?P (r, c)"
  proof (cases ?corners)
    case (Cons p ps)
    then have "p \<in> set ?corners"
      by simp
    then have "?P p"
      by simp
    moreover have "(r, c) = p"
      using sg Cons by (simp add: get_smart_guess_def prod_eq_iff)
    ultimately show ?thesis
      by simp
  next
    case Nil
    show ?thesis
    proof (cases "?edges = []")
      case False
      then have "choice g ?edges \<in> set ?edges"
        using ch by blast
      then have "?P (choice g ?edges)"
        by simp
      moreover have "(r, c) = choice g ?edges"
        using sg Nil False by (simp add: get_smart_guess_def Let_def prod_eq_iff)
      ultimately show ?thesis
        by simp
    next
      case True
      have ne: "possible_moves a \<noteq> []"
        using sg Nil True by (auto simp: get_smart_guess_def Let_def split: if_splits)
      then have "choice g (possible_moves a) \<in> set (possible_moves a)"
        using ch by blast
      then have "?P (choice g (possible_moves a))"
        by (simp add: possible_moves_def)
      moreover have "(r, c) = choice g (possible_moves a)"
        using sg Nil True ne by (simp add: get_smart_guess_def Let_def prod_eq_iff)
      ultimately show ?thesis
        by simp
    qed
  qed
  then show ?thesis
    using t by simp
qed

lemma get_smart_guess_none: "get_smart_guess g a = None \<Longrightarrow> possible_moves a = []"
  by (auto simp: get_smart_guess_def Let_def split: list.splits if_splits)

text \<open>
  C5 (as the code has it). When the enumeration of a component finds no valid assignment
  the exact estimator returns no cell and probability 1, and the loop over the components
  leaves its running best as it was and goes on with the next component. No failure is
  raised: the choice of the hybrid and of the MCMC agent always returns. With no known
  safe cell left to play and a frontier that is not empty, the choice is the one made
  from the components that do have a valid assignment or have more than 18 cells: the
  reveal of the cell of such a component whose estimate has a probability below 1 that is
  least among the estimates that hold a cell, and the move of \<open>get_smart_guess\<close> when no
  such component has such an estimate, in particular when every component is without
  valid assignment. When \<open>random.choice\<close> returns a member of its list, a move of
  \<open>get_smart_guess\<close> reveals a cell that is neither a move made nor a known mine; when
  \<open>get_smart_guess\<close> returns no move, no such cell is left on the grid.
\<close>

theorem unsat_component_is_skipped:
  "(fst (count_worlds K xs) = 0 \<longrightarrow> solve_component_exact K xs = (None, 1)) \<and>
   (card component \<le> 18 \<and> fst (count_worlds K (sorted_list_of_set component)) = 0 \<longrightarrow>
      best_over (solve_component_exact K) approx (component # comps) best
        = best_over (solve_component_exact K) approx comps best) \<and>
   (\<exists>result. hybrid_choose approx g a = Inr result) \<and>
   (\<exists>result. mcmc_choose approx g a = Inr result) \<and>
   (safe_move a = None \<and> fringe_list a \<noteq> [] \<and>
    get_components (knowledge a) (fringe_list a) = Inr comps' \<longrightarrow>
      picks_least (estimate_component (solve_component_exact (knowledge a)) approx)
        (filter (\<lambda>c. \<not> (card c \<le> 18 \<and>
                            fst (count_worlds (knowledge a) (sorted_list_of_set c)) = 0)) comps')
        g a (hybrid_choose approx g a) \<and>
      picks_least (estimate_component (solve_component_exact (knowledge a)) approx)
        (filter (\<lambda>c. \<not> (card c \<le> 18 \<and>
                            fst (count_worlds (knowledge a) (sorted_list_of_set c)) = 0)) comps')
        g a (mcmc_choose approx g a)) \<and>
   (safe_move a = None \<and> fringe_list a \<noteq> [] \<and>
    get_components (knowledge a) (fringe_list a) = Inr comps' \<and>
    (\<forall>c\<in>set comps'. card c \<le> 18 \<and>
        fst (count_worlds (knowledge a) (sorted_list_of_set c)) = 0) \<longrightarrow>
      hybrid_choose approx g a = Inr (get_smart_guess g a) \<and>
      mcmc_choose approx g a = Inr (get_smart_guess g a)) \<and>
   ((\<forall>xs. xs \<noteq> [] \<longrightarrow> choice g xs \<in> set xs) \<and> get_smart_guess g a = Some (r, c, t) \<longrightarrow>
      (r, c) \<notin> moves_made a \<and> (r, c) \<notin> mines a \<and> t = 0) \<and>
   (get_smart_guess g a = None \<longrightarrow> possible_moves a = [])"
proof (intro conjI impI)
  show "solve_component_exact K xs = (None, 1)" if "fst (count_worlds K xs) = 0"
    using that by (rule solve_component_exact_unsat)
  show "best_over (solve_component_exact K) approx (component # comps) best
        = best_over (solve_component_exact K) approx comps best"
    if "card component \<le> 18 \<and> fst (count_worlds K (sorted_list_of_set component)) = 0"
    using that by (intro best_over_skip) simp_all
  show "\<exists>result. hybrid_choose approx g a = Inr result"
    unfolding hybrid_choose_def by (rule probability_choose_returns)
  show "\<exists>result. mcmc_choose approx g a = Inr result"
    unfolding mcmc_choose_def by (rule probability_choose_returns)
  show "possible_moves a = []" if "get_smart_guess g a = None"
    using that by (rule get_smart_guess_none)
next
  assume h: "safe_move a = None \<and> fringe_list a \<noteq> [] \<and>
    get_components (knowledge a) (fringe_list a) = Inr comps'"
  show "picks_least (estimate_component (solve_component_exact (knowledge a)) approx)
        (filter (\<lambda>c. \<not> (card c \<le> 18 \<and>
                            fst (count_worlds (knowledge a) (sorted_list_of_set c)) = 0)) comps')
        g a (hybrid_choose approx g a)"
    unfolding hybrid_choose_def using h by (intro probability_choose_skips_unsat) simp_all
  show "picks_least (estimate_component (solve_component_exact (knowledge a)) approx)
        (filter (\<lambda>c. \<not> (card c \<le> 18 \<and>
                            fst (count_worlds (knowledge a) (sorted_list_of_set c)) = 0)) comps')
        g a (mcmc_choose approx g a)"
    unfolding mcmc_choose_def using h by (intro probability_choose_skips_unsat) simp_all
next
  assume h: "safe_move a = None \<and> fringe_list a \<noteq> [] \<and>
    get_components (knowledge a) (fringe_list a) = Inr comps' \<and>
    (\<forall>c\<in>set comps'. card c \<le> 18 \<and>
        fst (count_worlds (knowledge a) (sorted_list_of_set c)) = 0)"
  show "hybrid_choose approx g a = Inr (get_smart_guess g a)"
    unfolding hybrid_choose_def using h by (intro probability_choose_all_unsat) blast+
  show "mcmc_choose approx g a = Inr (get_smart_guess g a)"
    unfolding mcmc_choose_def using h by (intro probability_choose_all_unsat) blast+
next
  assume h: "(\<forall>xs. xs \<noteq> [] \<longrightarrow> choice g xs \<in> set xs) \<and> get_smart_guess g a = Some (r, c, t)"
  have h1: "\<forall>xs. xs \<noteq> [] \<longrightarrow> choice g xs \<in> set xs"
    and h2: "get_smart_guess g a = Some (r, c, t)"
    using h by blast+
  have u: "(r, c) \<notin> moves_made a \<and> (r, c) \<notin> mines a \<and> t = 0"
    using h1 h2 by (rule get_smart_guess_unplayed)
  show "(r, c) \<notin> moves_made a" "(r, c) \<notin> mines a" "t = 0"
    using u by simp_all
qed

text \<open>
  The claim as stated fails. On a grid of one row and three columns the observation shows
  hint 2 at \<open>(0, 0)\<close> and the other cells covered. The knowledge base becomes the single
  Sentence \<open>{(0, 1)} = 2\<close>, whose component has no valid assignment, and \<open>get_action\<close> of
  the hybrid and of the MCMC agent returns the reveal of \<open>(0, 2)\<close>.
\<close>

theorem contradiction_still_moves:
  "fst (count_worlds [\<lparr>cells = {(0, 1)}, count = 2\<rparr>] [(0, 1)]) = 0 \<and>
   get_components [\<lparr>cells = {(0, 1)}, count = 2\<rparr>] [(0, 1)] = Inr [{(0, 1)}] \<and>
   hybrid_get_action (\<lambda>xs. (None, 1)) \<lparr>shuffle = (\<lambda>xs. xs), choice = hd\<rparr>
      (\<lambda>p. if p = (0, 0) then 2 else - 2) (init_agent 1 3)
     = Some (\<lparr>rows = 1, cols = 3, moves_made = {(0, 0)}, mines = {}, safes = {(0, 0)},
               knowledge = [\<lparr>cells = {(0, 1)}, count = 2\<rparr>]\<rparr>, Inr (Some (0, 2, 0))) \<and>
   mcmc_get_action (\<lambda>xs. (None, 1)) \<lparr>shuffle = (\<lambda>xs. xs), choice = hd\<rparr>
      (\<lambda>p. if p = (0, 0) then 2 else - 2) (init_agent 1 3)
     = Some (\<lparr>rows = 1, cols = 3, moves_made = {(0, 0)}, mines = {}, safes = {(0, 0)},
               knowledge = [\<lparr>cells = {(0, 1)}, count = 2\<rparr>]\<rparr>, Inr (Some (0, 2, 0)))"
proof (intro conjI)
  show "fst (count_worlds [\<lparr>cells = {(0, 1)}, count = 2\<rparr>] [(0, 1)]) = 0"
    by code_simp
  show "get_components [\<lparr>cells = {(0, 1)}, count = 2\<rparr>] [(0, 1)] = Inr [{(0, 1)}]"
    by code_simp
  show "hybrid_get_action (\<lambda>xs. (None, 1)) \<lparr>shuffle = (\<lambda>xs. xs), choice = hd\<rparr>
      (\<lambda>p. if p = (0, 0) then 2 else - 2) (init_agent 1 3)
     = Some (\<lparr>rows = 1, cols = 3, moves_made = {(0, 0)}, mines = {}, safes = {(0, 0)},
               knowledge = [\<lparr>cells = {(0, 1)}, count = 2\<rparr>]\<rparr>, Inr (Some (0, 2, 0)))"
    by code_simp
  show "mcmc_get_action (\<lambda>xs. (None, 1)) \<lparr>shuffle = (\<lambda>xs. xs), choice = hd\<rparr>
      (\<lambda>p. if p = (0, 0) then 2 else - 2) (init_agent 1 3)
     = Some (\<lparr>rows = 1, cols = 3, moves_made = {(0, 0)}, mines = {}, safes = {(0, 0)},
               knowledge = [\<lparr>cells = {(0, 1)}, count = 2\<rparr>]\<rparr>, Inr (Some (0, 2, 0)))"
    by code_simp
qed

theorem unsat_component_is_skipped_witness:
  "solve_component_exact [\<lparr>cells = {(0, 1)}, count = 2\<rparr>, \<lparr>cells = {(0, 3), (0, 4)}, count = 1\<rparr>]
      [(0, 1)] = (None, 1) \<and>
   solve_component_exact [\<lparr>cells = {(0, 1)}, count = 2\<rparr>, \<lparr>cells = {(0, 3), (0, 4)}, count = 1\<rparr>]
      [(0, 3), (0, 4)] = (Some (0, 3), 1 / 2) \<and>
   hybrid_choose (\<lambda>xs. (None, 1)) \<lparr>shuffle = (\<lambda>xs. xs), choice = hd\<rparr>
      \<lparr>rows = 1, cols = 5, moves_made = {(0, 0)}, mines = {}, safes = {(0, 0)},
        knowledge = [\<lparr>cells = {(0, 1)}, count = 2\<rparr>, \<lparr>cells = {(0, 3), (0, 4)}, count = 1\<rparr>]\<rparr>
     = Inr (Some (0, 3, 0)) \<and>
   mcmc_choose (\<lambda>xs. (None, 1)) \<lparr>shuffle = (\<lambda>xs. xs), choice = hd\<rparr>
      \<lparr>rows = 1, cols = 5, moves_made = {(0, 0)}, mines = {}, safes = {(0, 0)},
        knowledge = [\<lparr>cells = {(0, 1)}, count = 2\<rparr>, \<lparr>cells = {(0, 3), (0, 4)}, count = 1\<rparr>]\<rparr>
     = Inr (Some (0, 3, 0)) \<and>
   best_over (solve_component_exact [\<lparr>cells = {(0, 1)}, count = 2\<rparr>]) (\<lambda>xs. (None, 1))
      [{(0, 1)}] (None, 1) = (None, 1) \<and>
   hybrid_choose (\<lambda>xs. (None, 1)) \<lparr>shuffle = (\<lambda>xs. xs), choice = hd\<rparr>
      \<lparr>rows = 1, cols = 3, moves_made = {(0, 0)}, mines = {}, safes = {(0, 0)},
        knowledge = [\<lparr>cells = {(0, 1)}, count = 2\<rparr>]\<rparr> = Inr (Some (0, 2, 0)) \<and>
   (0, 2) \<notin> moves_made \<lparr>rows = 1, cols = 3, moves_made = {(0, 0)}, mines = {}, safes = {(0, 0)},
        knowledge = [\<lparr>cells = {(0, 1)}, count = 2\<rparr>]\<rparr>"
proof -
  let ?K = "[\<lparr>cells = {(0, 1)}, count = 2\<rparr>]"
  let ?a = "\<lparr>rows = 1, cols = 3, moves_made = {(0, 0)}, mines = {}, safes = {(0, 0)},
        knowledge = ?K\<rparr>"
  let ?K2 = "[\<lparr>cells = {(0, 1)}, count = 2\<rparr>, \<lparr>cells = {(0, 3), (0, 4)}, count = 1\<rparr>]"
  let ?b = "\<lparr>rows = 1, cols = 5, moves_made = {(0, 0)}, mines = {}, safes = {(0, 0)},
        knowledge = ?K2\<rparr>"
  let ?g = "\<lparr>shuffle = (\<lambda>xs. xs), choice = hd\<rparr>"
  have w: "fst (count_worlds ?K [(0, 1)]) = 0"
    by code_simp
  have l: "sorted_list_of_set {(0::int, 1::int)} = [(0, 1)]"
    by simp
  have sm: "safe_move ?a = None"
    by code_simp
  have fr: "fringe_list ?a = [(0, 1)]"
    by code_simp
  have gc: "get_components ?K [(0, 1)] = Inr [{(0, 1)}]"
    by code_simp
  have sg: "get_smart_guess ?g ?a = Some (0, 2, 0)"
    by code_simp
  have ch: "\<forall>xs. xs \<noteq> [] \<longrightarrow> choice ?g xs \<in> set xs"
    by simp
  note t = unsat_component_is_skipped[where K = ?K and xs = "[(0, 1)]" and component = "{(0, 1)}"
      and comps = "[]" and best = "(None, 1)" and approx = "\<lambda>xs. (None, 1)" and a = ?a
      and comps' = "[{(0, 1)}]" and g = ?g and r = 0 and c = 2 and t = 0]
  have 1: "best_over (solve_component_exact ?K) (\<lambda>xs. (None, 1)) [{(0, 1)}] (None, 1) = (None, 1)"
    using t w l by simp
  have 2: "hybrid_choose (\<lambda>xs. (None, 1)) ?g ?a = Inr (Some (0, 2, 0))"
    using t w l sm fr gc sg by simp
  have 3: "(0, 2) \<notin> moves_made ?a"
    using t ch sg by blast
  have w1: "fst (count_worlds ?K2 [(0, 1)]) = 0"
    by code_simp
  have w2: "fst (count_worlds ?K2 [(0, 3), (0, 4)]) = 2"
    by code_simp
  have l2: "sorted_list_of_set {(0::int, 3::int), (0, 4)} = [(0, 3), (0, 4)]"
    by code_simp
  have smb: "safe_move ?b = None"
    by code_simp
  have frb: "fringe_list ?b = [(0, 1), (0, 3), (0, 4)]"
    by code_simp
  have gcb: "get_components ?K2 [(0, 1), (0, 3), (0, 4)] = Inr [{(0, 1)}, {(0, 3), (0, 4)}]"
    by code_simp
  have e2: "solve_component_exact ?K2 [(0, 3), (0, 4)] = (Some (0, 3), 1 / 2)"
    by code_simp
  note u = unsat_component_is_skipped[where K = ?K2 and xs = "[(0, 1)]" and approx = "\<lambda>xs. (None, 1)"
      and a = ?b and comps' = "[{(0, 1)}, {(0, 3), (0, 4)}]" and g = ?g]
  have 4: "solve_component_exact ?K2 [(0, 1)] = (None, 1)"
    using u w1 by blast
  have p: "picks_least (estimate_component (solve_component_exact ?K2) (\<lambda>xs. (None, 1)))
      [{(0, 3), (0, 4)}] ?g ?b (hybrid_choose (\<lambda>xs. (None, 1)) ?g ?b)"
    and q: "picks_least (estimate_component (solve_component_exact ?K2) (\<lambda>xs. (None, 1)))
      [{(0, 3), (0, 4)}] ?g ?b (mcmc_choose (\<lambda>xs. (None, 1)) ?g ?b)"
    using u smb frb gcb w1 w2 l l2 by simp_all
  have est: "estimate_component (solve_component_exact ?K2) (\<lambda>xs. (None, 1)) {(0, 3), (0, 4)}
      = (Some (0, 3), 1 / 2)"
    by (simp add: estimate_component_def l2 e2)
  have 5: "hybrid_choose (\<lambda>xs. (None, 1)) ?g ?b = Inr (Some (0, 3, 0))"
    using p unfolding picks_least_def by (simp add: est)
  have 6: "mcmc_choose (\<lambda>xs. (None, 1)) ?g ?b = Inr (Some (0, 3, 0))"
    using q unfolding picks_least_def by (simp add: est)
  show ?thesis
    using 1 2 3 4 5 6 e2 by simp
qed

end
